theory Spec2Isabelle
  imports Main "HOL-Library.AList" "HOL-Library.Char_ord" "HOL-Library.List_Lexorder"
begin

section \<open>Schema hierarchy resolution and validation (followthemoney/schema.py)\<close>

text \<open>
  A \<open>Schema\<close> object is identified by its name: \<open>__hash__\<close> and \<open>__eq__\<close> are computed from
  \<open>"<Schema(%r)>" % name\<close> alone. A reference to a schema (an element of \<open>extends\<close>,
  \<open>schemata\<close>, \<open>descendants\<close>, the owner of a property) is therefore the schema's name, the
  model registry is a map from names to schema objects, and a method that mutates schema
  objects takes the registry and returns it updated. Python dictionaries whose iteration
  order the code relies on are association lists with distinct keys; \<open>d[k] = v\<close> is
  \<open>AList.update\<close> (replace in place, or append). Python sets are HOL sets.
\<close>

subsection \<open>Errors\<close>

datatype error =
    InvalidData string "(string \<times> string) list"
  | InvalidModel string

subsection \<open>Helpers from \<open>banal\<close> and Python built-ins\<close>

text \<open>\<open>as_bool(value, default)\<close> on an optional boolean.\<close>

fun as_bool :: "bool option \<Rightarrow> bool \<Rightarrow> bool" where
  "as_bool None d = d"
| "as_bool (Some b) d = b"

text \<open>\<open>data.get(key, default)\<close> on a key that may be absent.\<close>

fun get_default :: "'a option \<Rightarrow> 'a \<Rightarrow> 'a" where
  "get_default None d = d"
| "get_default (Some x) d = x"

text \<open>\<open>ensure_list\<close> on an optional list: \<open>None\<close> becomes the empty list.\<close>

fun ensure_list :: "'a list option \<Rightarrow> 'a list" where
  "ensure_list None = []"
| "ensure_list (Some xs) = xs"

text \<open>An input value of type \<open>Any\<close>: nothing, one scalar, or a list of scalars.\<close>

datatype 'v pyval = PyNone | PyScalar 'v | PyList "'v list"

fun ensure_list_any :: "'v pyval \<Rightarrow> 'v list" where
  "ensure_list_any PyNone = []"
| "ensure_list_any (PyScalar v) = [v]"
| "ensure_list_any (PyList vs) = vs"

text \<open>Truth value of an optional string: \<open>None\<close> and the empty string are false.\<close>

fun truthy :: "string option \<Rightarrow> bool" where
  "truthy None = False"
| "truthy (Some s) = (s \<noteq> [])"

text \<open>
  \<open>"%r" % s\<close>, the \<open>repr\<close> of a string: single quotes, unless the string holds a single
  quote and no double quote; the quote character and the backslash are escaped, tab,
  newline and carriage return are written \<open>\t\<close>, \<open>\n\<close>, \<open>\r\<close>, other control characters
  as \<open>\xNN\<close>. Bytes above 127 (the UTF-8 encoding of printable non-ASCII characters) are
  kept as they are.
\<close>

definition hex_digit :: "nat \<Rightarrow> char" where
  "hex_digit n = ''0123456789abcdef'' ! (n mod 16)"

definition repr_char :: "char \<Rightarrow> char \<Rightarrow> string" where
  "repr_char q c =
     (if c = q \<or> c = CHR 0x5C then [CHR 0x5C, c]
      else if c = CHR 0x09 then [CHR 0x5C, CHR ''t'']
      else if c = CHR 0x0A then [CHR 0x5C, CHR ''n'']
      else if c = CHR 0x0D then [CHR 0x5C, CHR ''r'']
      else if (of_char c :: nat) < 32 \<or> (of_char c :: nat) = 127
      then [CHR 0x5C, CHR ''x'', hex_digit (of_char c div 16), hex_digit (of_char c mod 16)]
      else [c])"

definition py_repr :: "string \<Rightarrow> string" where
  "py_repr s =
     (let q = (if CHR 0x27 \<in> set s \<and> CHR 0x22 \<notin> set s then CHR 0x22 else CHR 0x27)
      in [q] @ concat (map (repr_char q) s) @ [q])"

subsection \<open>Specifications (the typed dictionaries handed to the constructors)\<close>

record reverse_spec =
  rs_name :: "string option"
  rs_label :: "string option"
  rs_hidden :: "bool option"

record property_spec =
  ps_label :: "string option"
  ps_type :: string
  ps_reverse :: "reverse_spec option"
  ps_range :: "string option"
  ps_hidden :: "bool option"

record edge_spec =
  es_source :: "string option"
  es_target :: "string option"
  es_caption :: "string list option"
  es_label :: "string option"
  es_directed :: "bool option"

record schema_spec =
  ss_label :: "string option"
  ss_plural :: "string option"
  ss_extends :: "string list option"
  ss_properties :: "(string \<times> property_spec) list option"
  ss_featured :: "string list option"
  ss_required :: "string list option"
  ss_caption :: "string list option"
  ss_edge :: "edge_spec option"
  ss_description :: "string option"
  ss_abstract :: "bool option"
  ss_hidden :: "bool option"
  ss_generated :: "bool option"
  ss_matchable :: "bool option"

subsection \<open>Properties\<close>

text \<open>
  Modelled from the spec: the \<open>Property\<close> class (followthemoney/property.py) is not part of
  the source under study. A property is constructible from (owning schema, name, spec),
  exposes its name, its owner, its hidden flag and can be marked as a stub. One object is
  built per (owner, name), so the record, which carries both, stands for the object.
\<close>

record property =
  p_schema :: string
  p_name :: string
  p_spec :: property_spec
  p_hidden :: bool
  p_stub :: bool

definition Property :: "string \<Rightarrow> string \<Rightarrow> property_spec \<Rightarrow> property" where
  "Property owner nm spec =
     \<lparr> p_schema = owner, p_name = nm, p_spec = spec,
       p_hidden = as_bool (ps_hidden spec) False, p_stub = False \<rparr>"

text \<open>Modelled from the spec: \<open>registry.entity.name\<close>, the name of the entity-reference type.\<close>

definition entity_name :: string where
  "entity_name = ''entity''"

text \<open>Modelled from the spec: \<open>str(prop)\<close>, the qualified name of a property.\<close>

definition prop_str :: "property \<Rightarrow> string" where
  "prop_str p = p_schema p @ '':'' @ p_name p"

subsection \<open>Schema objects\<close>

text \<open>
  The fields of \<open>__slots__\<close>; a leading underscore is written \<open>u_\<close>. The fields \<open>_hash\<close> and
  \<open>uri\<close> (an RDF term built by an external library) play no part below: identity is the
  name, and \<open>model\<close> is the registry that every operation receives.
\<close>

record schema =
  name :: string
  u_label :: string
  u_plural :: string
  u_description :: "string option"
  abstract :: bool
  hidden :: bool
  generated :: bool
  matchable :: bool
  featured :: "string list"
  required :: "string list"
  caption :: "string list"
  edge :: bool
  u_edge_label :: string
  edge_directed :: bool
  edge_source :: "string option"
  edge_target :: "string option"
  edge_caption :: "string list"
  u_extends :: "string list"
  extends :: "string set"
  schemata :: "string set"
  names :: "string set"
  descendants :: "string set"
  properties :: "(string \<times> property) list"
  u_matchable_schemata :: "string set option"

type_synonym model = "string \<Rightarrow> schema option"

text \<open>\<open>Schema.__init__(model, name, data)\<close>; \<open>gettext\<close> is the external localisation.\<close>

definition empty_edge :: edge_spec where
  "empty_edge = \<lparr> es_source = None, es_target = None, es_caption = None,
                  es_label = None, es_directed = None \<rparr>"

definition init_properties :: "string \<Rightarrow> (string \<times> property_spec) list \<Rightarrow> (string \<times> property) list" where
  "init_properties nm items =
     foldl (\<lambda>acc (n, ps). AList.update n (Property nm n ps) acc) [] items"

definition schema_init :: "(string \<Rightarrow> string) \<Rightarrow> string \<Rightarrow> schema_spec \<Rightarrow> schema" where
  "schema_init gettext nm data =
    (let lbl = get_default (ss_label data) nm;
         is_abs = as_bool (ss_abstract data) False;
         hid = as_bool (ss_hidden data) False;
         e = get_default (ss_edge data) empty_edge
     in \<lparr> name = nm,
          u_label = lbl,
          u_plural = get_default (ss_plural data) (gettext lbl),
          u_description = ss_description data,
          abstract = is_abs,
          hidden = (hid \<and> \<not> is_abs),
          generated = as_bool (ss_generated data) False,
          matchable = as_bool (ss_matchable data) True,
          featured = ensure_list (ss_featured data),
          required = ensure_list (ss_required data),
          caption = ensure_list (ss_caption data),
          edge = (es_source e \<noteq> None \<and> es_target e \<noteq> None),
          u_edge_label = get_default (es_label e) lbl,
          edge_directed = as_bool (Some (get_default (es_directed e) True)) False,
          edge_source = es_source e,
          edge_target = es_target e,
          edge_caption = ensure_list (es_caption e),
          u_extends = ensure_list (ss_extends data),
          extends = {},
          schemata = {nm},
          names = {nm},
          descendants = {},
          properties = init_properties nm (get_default (ss_properties data) []),
          u_matchable_schemata = None \<rparr>)"

subsection \<open>Accessors\<close>

definition label :: "(string \<Rightarrow> string) \<Rightarrow> schema \<Rightarrow> string" where
  "label gettext s = gettext (u_label s)"

definition plural :: "(string \<Rightarrow> string) \<Rightarrow> schema \<Rightarrow> string" where
  "plural gettext s = gettext (u_plural s)"

definition description :: "(string \<Rightarrow> string) \<Rightarrow> schema \<Rightarrow> string option" where
  "description gettext s = map_option gettext (u_description s)"

definition edge_label :: "(string \<Rightarrow> string) \<Rightarrow> schema \<Rightarrow> string option" where
  "edge_label gettext s = Some (gettext (u_edge_label s))"

text \<open>\<open>Schema.get(name)\<close>.\<close>

fun get :: "schema \<Rightarrow> string option \<Rightarrow> property option" where
  "get s None = None"
| "get s (Some n) = map_of (properties s) n"

definition source_prop :: "schema \<Rightarrow> property option" where
  "source_prop s = get s (edge_source s)"

definition target_prop :: "schema \<Rightarrow> property option" where
  "target_prop s = get s (edge_target s)"

subsection \<open>Serialisation: \<open>to_dict\<close>\<close>

text \<open>
  The result is a \<open>TypedDict\<close> with optional keys: a key that the code does not set is
  \<open>None\<close>. \<open>ptd\<close> is the external \<open>Property.to_dict\<close>.
\<close>

record 'pd schema_to_dict =
  td_label :: string
  td_plural :: string
  td_schemata :: "string list"
  td_extends :: "string list"
  td_edge :: "edge_spec option"
  td_featured :: "string list option"
  td_required :: "string list option"
  td_caption :: "string list option"
  td_description :: "string option"
  td_abstract :: "bool option"
  td_hidden :: "bool option"
  td_generated :: "bool option"
  td_matchable :: "bool option"
  td_properties :: "(string \<times> 'pd) list"

definition own_properties :: "(property \<Rightarrow> 'pd) \<Rightarrow> schema \<Rightarrow> (string \<times> 'pd) list" where
  "own_properties ptd s =
     foldl (\<lambda>acc (n, p). if p_schema p = name s then AList.update n (ptd p) acc else acc)
       [] (properties s)"

definition to_dict :: "(string \<Rightarrow> string) \<Rightarrow> (property \<Rightarrow> 'pd) \<Rightarrow> schema \<Rightarrow> 'pd schema_to_dict" where
  "to_dict gettext ptd s =
     \<lparr> td_label = label gettext s,
       td_plural = plural gettext s,
       td_schemata = sorted_list_of_set (names s),
       td_extends = sorted_list_of_set (extends s),
       td_edge =
         (if truthy (edge_source s) \<and> truthy (edge_target s) \<and> truthy (edge_label gettext s)
          then Some \<lparr> es_source = edge_source s, es_target = edge_target s,
                      es_caption = Some (edge_caption s), es_label = edge_label gettext s,
                      es_directed = Some (edge_directed s) \<rparr>
          else None),
       td_featured = (if length (featured s) \<noteq> 0 then Some (featured s) else None),
       td_required = (if length (required s) \<noteq> 0 then Some (required s) else None),
       td_caption = (if length (caption s) \<noteq> 0 then Some (caption s) else None),
       td_description =
         (if truthy (description gettext s) then description gettext s else None),
       td_abstract = (if abstract s then Some True else None),
       td_hidden = (if hidden s then Some True else None),
       td_generated = (if generated s then Some True else None),
       td_matchable = (if matchable s then Some True else None),
       td_properties = own_properties ptd s \<rparr>"

subsection \<open>Validation\<close>

text \<open>
  \<open>validate(data)\<close>: \<open>data\<close> is a dictionary whose \<open>"properties"\<close> entry, when present,
  maps property names to values; \<open>pv\<close> is the external \<open>Property.validate\<close>. Python passes
  \<open>self\<close> and \<open>data\<close> by reference, so the model returns both as they are after the call,
  next to the result.
\<close>

record 'v entity_data =
  d_properties :: "(string \<times> 'v pyval) list option"

definition prop_values :: "(string \<times> 'v pyval) list \<Rightarrow> string \<Rightarrow> 'v list" where
  "prop_values props n = ensure_list_any (get_default (map_of props n) (PyList []))"

definition validate_step ::
  "(string \<Rightarrow> string) \<Rightarrow> (property \<Rightarrow> 'v list \<Rightarrow> string option) \<Rightarrow> schema \<Rightarrow>
   (string \<times> 'v pyval) list \<Rightarrow> (string \<times> string) list \<Rightarrow> string \<times> property \<Rightarrow>
   (string \<times> string) list" where
  "validate_step gettext pv s props errors item =
     (let n = fst item; prop = snd item;
          values = prop_values props n;
          err = pv prop values;
          err = (if err = None \<and> length values = 0 then
                   (if p_name prop \<in> set (required s) then Some (gettext ''Required'') else err)
                 else err)
      in (case err of None \<Rightarrow> errors | Some e \<Rightarrow> AList.update n e errors))"

definition validate_errors ::
  "(string \<Rightarrow> string) \<Rightarrow> (property \<Rightarrow> 'v list \<Rightarrow> string option) \<Rightarrow> schema \<Rightarrow>
   'v entity_data \<Rightarrow> (string \<times> string) list" where
  "validate_errors gettext pv s data =
     foldl (validate_step gettext pv s (get_default (d_properties data) [])) [] (properties s)"

definition validate ::
  "(string \<Rightarrow> string) \<Rightarrow> (property \<Rightarrow> 'v list \<Rightarrow> string option) \<Rightarrow> schema \<Rightarrow>
   'v entity_data \<Rightarrow> (error + unit) \<times> schema \<times> 'v entity_data" where
  "validate gettext pv s data =
     (let errors = validate_errors gettext pv s data
      in if length errors \<noteq> 0
         then (Inl (InvalidData (gettext ''Entity validation failed'') errors), s, data)
         else (Inr (), s, data))"

subsection \<open>Matchable schemata\<close>

text \<open>
  The property \<open>matchable_schemata\<close> fills the cache \<open>_matchable_schemata\<close> on first access,
  so it returns the set together with the updated registry. A reference in \<open>schemata\<close> or
  \<open>descendants\<close> always denotes a registered object; the \<open>None\<close> branches are never taken
  on registries built by the constructor.
\<close>

definition is_matchable :: "model \<Rightarrow> string \<Rightarrow> bool" where
  "is_matchable m n = (case m n of None \<Rightarrow> False | Some s \<Rightarrow> matchable s)"

definition matchable_schemata :: "model \<Rightarrow> string \<Rightarrow> string set \<times> model" where
  "matchable_schemata m self =
     (case m self of
        None \<Rightarrow> ({}, m)
      | Some s \<Rightarrow>
          (case u_matchable_schemata s of
             Some ms \<Rightarrow> (ms, m)
           | None \<Rightarrow>
               (let candidates = schemata s \<union> descendants s;
                    ms = (if matchable s then Set.filter (is_matchable m) candidates else {})
                in (ms, m(self \<mapsto> s\<lparr> u_matchable_schemata := Some ms \<rparr>)))))"

definition can_match :: "model \<Rightarrow> string \<Rightarrow> string \<Rightarrow> bool \<times> model" where
  "can_match m self other =
     (let (ms, m') = matchable_schemata m self in (other \<in> ms, m'))"

subsection \<open>Results of calls that may raise or recurse without end\<close>

text \<open>
  \<open>generate\<close> recurses over the \<open>extends\<close> graph and, through property generation, over
  reverse declarations; nothing in the code bounds that recursion. The recursive
  functions take fuel: \<open>None\<close> means that the fuel did not suffice (with any fuel: the call
  never returns), \<open>Some (Inl e)\<close> that the exception \<open>e\<close> was raised, \<open>Some (Inr x)\<close> that
  the call returned \<open>x\<close>. A method is always invoked on a registered object; for an
  unregistered name there is no call and hence no result.
\<close>

definition bind_r :: "(error + 'a) option \<Rightarrow> ('a \<Rightarrow> (error + 'b) option) \<Rightarrow> (error + 'b) option" where
  "bind_r r k = (case r of None \<Rightarrow> None | Some (Inl e) \<Rightarrow> Some (Inl e) | Some (Inr x) \<Rightarrow> k x)"

definition upd_schema :: "string \<Rightarrow> (schema \<Rightarrow> schema) \<Rightarrow> model \<Rightarrow> model" where
  "upd_schema n f m = (case m n of None \<Rightarrow> m | Some s \<Rightarrow> m(n \<mapsto> f s))"

subsection \<open>Reverse property stubs: \<open>_add_reverse\<close>\<close>

text \<open>
  \<open>self._add_reverse(data, other)\<close>; \<open>pg\<close> is the external \<open>Property.generate\<close>, called on
  the new stub before the stub is stored. The result is the property together with the
  updated registry.
\<close>

definition reverse_stub_spec :: "reverse_spec \<Rightarrow> property \<Rightarrow> property_spec" where
  "reverse_stub_spec data other =
     \<lparr> ps_label = rs_label data,
       ps_type = entity_name,
       ps_reverse = Some \<lparr> rs_name = Some (p_name other), rs_label = None, rs_hidden = None \<rparr>,
       ps_range = Some (p_schema other),
       ps_hidden = Some (get_default (rs_hidden data) (p_hidden other)) \<rparr>"

definition add_reverse ::
  "(model \<Rightarrow> property \<Rightarrow> (error + model) option) \<Rightarrow> model \<Rightarrow> string \<Rightarrow> reverse_spec \<Rightarrow>
   property \<Rightarrow> (error + model \<times> property) option" where
  "add_reverse pg m self data other =
     (case rs_name data of
        None \<Rightarrow> Some (Inl (InvalidModel (''Unnamed reverse: '' @ prop_str other)))
      | Some nm \<Rightarrow>
          (case m self of
             None \<Rightarrow> None
           | Some s \<Rightarrow>
               (case get s (Some nm) of
                  Some prop \<Rightarrow> Some (Inr (m, prop))
                | None \<Rightarrow>
                    (let prop = (Property self nm (reverse_stub_spec data other))\<lparr> p_stub := True \<rparr>
                     in bind_r (pg m prop)
                          (\<lambda>m'. Some (Inr (upd_schema self
                                   (\<lambda>s'. s'\<lparr> properties := AList.update nm prop (properties s') \<rparr>) m',
                                 prop)))))))"

text \<open>
  Modelled from the spec: \<open>Property.generate\<close> is not part of the source under study. For
  an entity-typed property whose range names a registered schema and which declares a
  reverse, it makes the inverse visible on the range schema by calling the range's
  \<open>_add_reverse\<close> with the declaration and itself; any other property is left alone.
  \<open>ar\<close> is \<open>_add_reverse\<close>.
\<close>

definition prop_generate_body ::
  "(model \<Rightarrow> string \<Rightarrow> reverse_spec \<Rightarrow> property \<Rightarrow> (error + model \<times> property) option) \<Rightarrow>
   model \<Rightarrow> property \<Rightarrow> (error + model) option" where
  "prop_generate_body ar m p =
     (if ps_type (p_spec p) = entity_name then
        (case ps_range (p_spec p) of
           None \<Rightarrow> Some (Inr m)
         | Some r \<Rightarrow>
             (case m r of
                None \<Rightarrow> Some (Inr m)
              | Some target \<Rightarrow>
                  (case ps_reverse (p_spec p) of
                     None \<Rightarrow> Some (Inr m)
                   | Some decl \<Rightarrow> bind_r (ar m r decl p) (\<lambda>res. Some (Inr (fst res))))))
      else Some (Inr m))"

primrec prop_generate :: "nat \<Rightarrow> model \<Rightarrow> property \<Rightarrow> (error + model) option" where
  "prop_generate 0 m p = None"
| "prop_generate (Suc f) m p = prop_generate_body (add_reverse (prop_generate f)) m p"

subsection \<open>Hierarchy resolution: \<open>generate\<close>\<close>

text \<open>Lines 197 to 199: inherited properties are written only where the name is absent.\<close>

definition merge_properties ::
  "(string \<times> property) list \<Rightarrow> (string \<times> property) list \<Rightarrow> (string \<times> property) list" where
  "merge_properties own inherited =
     foldl (\<lambda>acc (n, p). if map_of acc n = None then AList.update n p acc else acc) own inherited"

text \<open>
  Lines 197 to 205 for one parent, after the parent has been generated. \<open>ancestor.name\<close>
  is the reference \<open>ancestor\<close> itself.
\<close>

definition link_parent :: "string \<Rightarrow> string \<Rightarrow> model \<Rightarrow> model" where
  "link_parent self parent m =
     (case m parent of
        None \<Rightarrow> m
      | Some p \<Rightarrow>
          (let anc = schemata p;
               m1 = upd_schema self
                      (\<lambda>s. s\<lparr> properties := merge_properties (properties s) (properties p),
                               extends := insert parent (extends s),
                               schemata := schemata s \<union> anc,
                               names := names s \<union> anc \<rparr>) m
           in (\<lambda>n. if n \<in> anc
                    then map_option (\<lambda>s. s\<lparr> descendants := insert self (descendants s) \<rparr>) (m1 n)
                    else m1 n)))"

text \<open>The loop over \<open>self._extends\<close>; \<open>gen\<close> is the recursive \<open>parent.generate()\<close>.\<close>

fun extends_loop ::
  "(model \<Rightarrow> string \<Rightarrow> (error + model) option) \<Rightarrow> string \<Rightarrow> model \<Rightarrow> string list \<Rightarrow>
   (error + model) option" where
  "extends_loop gen self m [] = Some (Inr m)"
| "extends_loop gen self m (e # es) =
     (case m e of
        None \<Rightarrow> Some (Inl (InvalidData (''Invalid extends: '' @ py_repr e) []))
      | Some parent \<Rightarrow>
          bind_r (gen m e) (\<lambda>m'. extends_loop gen self (link_parent self e m') es))"

text \<open>The loop over \<open>list(self.properties.values())\<close>, a snapshot taken before the loop.\<close>

fun props_loop ::
  "(model \<Rightarrow> property \<Rightarrow> (error + model) option) \<Rightarrow> model \<Rightarrow> property list \<Rightarrow>
   (error + model) option" where
  "props_loop pg m [] = Some (Inr m)"
| "props_loop pg m (p # ps) = bind_r (pg m p) (\<lambda>m'. props_loop pg m' ps)"

text \<open>The checks of lines 210 to 229: the first name that does not resolve raises.\<close>

fun check_names :: "string \<Rightarrow> schema \<Rightarrow> string list \<Rightarrow> error option" where
  "check_names msg s [] = None"
| "check_names msg s (n # ns) =
     (if get s (Some n) = None then Some (InvalidModel (msg @ n)) else check_names msg s ns)"

fun py_str :: "string option \<Rightarrow> string" where
  "py_str None = ''None''"
| "py_str (Some s) = s"

definition check_edge :: "schema \<Rightarrow> error option" where
  "check_edge s =
     (if edge s then
        (if source_prop s = None
         then Some (InvalidModel (''Missing edge source: '' @ py_str (edge_source s)))
         else if target_prop s = None
         then Some (InvalidModel (''Missing edge target: '' @ py_str (edge_target s)))
         else None)
      else None)"

definition check_schema :: "schema \<Rightarrow> error option" where
  "check_schema s =
     (case check_names ''Missing featured property: '' s (featured s) of
        Some e \<Rightarrow> Some e
      | None \<Rightarrow>
          (case check_names ''Missing caption property: '' s (caption s) of
             Some e \<Rightarrow> Some e
           | None \<Rightarrow>
               (case check_names ''Missing required property: '' s (required s) of
                  Some e \<Rightarrow> Some e
                | None \<Rightarrow> check_edge s)))"

definition generate_props ::
  "(model \<Rightarrow> property \<Rightarrow> (error + model) option) \<Rightarrow> string \<Rightarrow> model \<Rightarrow> (error + model) option" where
  "generate_props pg self m =
     (case m self of
        None \<Rightarrow> None
      | Some s \<Rightarrow> props_loop pg m (map snd (properties s)))"

definition generate_checks :: "string \<Rightarrow> model \<Rightarrow> (error + model) option" where
  "generate_checks self m =
     (case m self of
        None \<Rightarrow> None
      | Some s \<Rightarrow> (case check_schema s of Some e \<Rightarrow> Some (Inl e) | None \<Rightarrow> Some (Inr m)))"

primrec generate :: "nat \<Rightarrow> model \<Rightarrow> string \<Rightarrow> (error + model) option" where
  "generate 0 m self = None"
| "generate (Suc f) m self =
     (case m self of
        None \<Rightarrow> None
      | Some s \<Rightarrow>
          bind_r (extends_loop (generate f) self m (u_extends s))
            (\<lambda>m1. bind_r (generate_props (prop_generate f) self m1) (generate_checks self)))"

text \<open>
  Modelled from the spec: the registry's second phase (\<open>Model.generate\<close>, not part of the
  source under study) invokes \<open>generate()\<close> on each schema in turn; an exception aborts
  the load.
\<close>

fun generate_all :: "nat \<Rightarrow> model \<Rightarrow> string list \<Rightarrow> (error + model) option" where
  "generate_all f m [] = Some (Inr m)"
| "generate_all f m (n # ns) = bind_r (generate f m n) (\<lambda>m'. generate_all f m' ns)"

subsection \<open>The validation contract in the words of the specification\<close>

text \<open>
  For every property of the merged set: the input's values, an empty list when the input
  has none; the property's own error, or else the error \<open>Required\<close> when there are no
  values and the property's name is listed in \<open>required\<close>.
\<close>

definition spec_values :: "'v entity_data \<Rightarrow> string \<Rightarrow> 'v list" where
  "spec_values data n =
     (case d_properties data of
        None \<Rightarrow> []
      | Some props \<Rightarrow> (case map_of props n of None \<Rightarrow> [] | Some v \<Rightarrow> ensure_list_any v))"

definition spec_property_error ::
  "(string \<Rightarrow> string) \<Rightarrow> (property \<Rightarrow> 'v list \<Rightarrow> string option) \<Rightarrow> schema \<Rightarrow> 'v entity_data \<Rightarrow>
   string \<times> property \<Rightarrow> string option" where
  "spec_property_error gettext pv s data item =
     (case pv (snd item) (spec_values data (fst item)) of
        Some e \<Rightarrow> Some e
      | None \<Rightarrow>
          (if spec_values data (fst item) = [] \<and> p_name (snd item) \<in> set (required s)
           then Some (gettext ''Required'') else None))"

definition spec_errors ::
  "(string \<Rightarrow> string) \<Rightarrow> (property \<Rightarrow> 'v list \<Rightarrow> string option) \<Rightarrow> schema \<Rightarrow> 'v entity_data \<Rightarrow>
   (string \<times> string) list" where
  "spec_errors gettext pv s data =
     List.map_filter
       (\<lambda>item. map_option (Pair (fst item)) (spec_property_error gettext pv s data item))
       (properties s)"


subsection \<open>Example schemata\<close>

definition no_spec :: schema_spec where
  "no_spec = \<lparr> ss_label = None, ss_plural = None, ss_extends = None, ss_properties = None,
               ss_featured = None, ss_required = None, ss_caption = None, ss_edge = None,
               ss_description = None, ss_abstract = None, ss_hidden = None,
               ss_generated = None, ss_matchable = None \<rparr>"

definition string_prop :: property_spec where
  "string_prop = \<lparr> ps_label = None, ps_type = ''string'', ps_reverse = None,
                   ps_range = None, ps_hidden = None \<rparr>"

definition ex_thing :: schema where
  "ex_thing = schema_init id ''Thing''
     (no_spec\<lparr> ss_abstract := Some True, ss_hidden := Some True,
               ss_properties := Some [(''name'', string_prop)] \<rparr>)"

definition ex_legal_entity :: schema where
  "ex_legal_entity = schema_init id ''LegalEntity''
     (no_spec\<lparr> ss_extends := Some [''Thing''], ss_hidden := Some True,
               ss_properties := Some [(''country'', string_prop)] \<rparr>)"

definition ex_company :: schema where
  "ex_company = schema_init id ''Company''
     (no_spec\<lparr> ss_extends := Some [''LegalEntity''], ss_matchable := Some True,
               ss_required := Some [''name''] \<rparr>)"

definition ex_plot :: schema where
  "ex_plot = schema_init id ''Plot''
     (no_spec\<lparr> ss_extends := Some [''Thing''], ss_matchable := Some False \<rparr>)"

definition ex_model :: model where
  "ex_model = [''Thing'' \<mapsto> ex_thing, ''LegalEntity'' \<mapsto> ex_legal_entity,
               ''Company'' \<mapsto> ex_company, ''Plot'' \<mapsto> ex_plot]"

text \<open>A property serialiser and a validator that rejects the value \<open>bad\<close>.\<close>

definition ex_ptd :: "property \<Rightarrow> string" where
  "ex_ptd p = p_name p"

definition ex_pv :: "property \<Rightarrow> string list \<Rightarrow> string option" where
  "ex_pv p vs = (if ''bad'' \<in> set vs then Some ''Invalid'' else None)"

text \<open>A person with two declared properties, one of them required.\<close>

definition ex_person :: schema where
  "ex_person = schema_init id ''Person''
     (no_spec\<lparr> ss_required := Some [''name''],
               ss_properties := Some [(''name'', string_prop), (''email'', string_prop),
                                      (''phone'', string_prop)] \<rparr>)"

text \<open>An edge schema whose label localises to the empty string under \<open>ex_blank\<close>.\<close>

definition ex_blank :: "string \<Rightarrow> string" where
  "ex_blank s = (if s = ''Ownership'' then [] else s)"

definition ex_ownership :: schema where
  "ex_ownership = schema_init id ''Ownership''
     (no_spec\<lparr> ss_edge := Some \<lparr> es_source = Some ''owner'', es_target = Some ''asset'',
                                  es_caption = None, es_label = None, es_directed = None \<rparr>,
               ss_properties := Some [(''owner'', string_prop), (''asset'', string_prop)] \<rparr>)"

text \<open>The example registry after the second phase of the load.\<close>

definition ex_generated :: model where
  "ex_generated =
     (case generate_all 5 ex_model [''Thing'', ''LegalEntity'', ''Company'', ''Plot''] of
        Some (Inr m) \<Rightarrow> m
      | _ \<Rightarrow> Map.empty)"

text \<open>A rank for the example registry: every parent ranks below its children.\<close>

definition ex_rank :: "string \<Rightarrow> nat" where
  "ex_rank x = (if x = ''Company'' then 2 else if x = ''LegalEntity'' then 1
                else if x = ''Plot'' then 1 else 0)"




text \<open>A schema that extends itself.\<close>

definition ex_cyclic :: model where
  "ex_cyclic = [''A'' \<mapsto> schema_init id ''A'' (no_spec\<lparr> ss_extends := Some [''A''] \<rparr>)]"



text \<open>An edge schema whose source is the empty string.\<close>

definition ex_empty_source :: schema where
  "ex_empty_source = schema_init id ''Ownership''
     (no_spec\<lparr> ss_edge := Some \<lparr> es_source = Some [], es_target = Some ''asset'',
                                  es_caption = None, es_label = None, es_directed = None \<rparr>,
               ss_properties := Some [(''asset'', string_prop)] \<rparr>)"

subsection \<open>Predicates on the registry used in the verification\<close>

definition uext_of :: "model \<Rightarrow> string \<Rightarrow> string list" where
  "uext_of m x = (case m x of None \<Rightarrow> [] | Some s \<Rightarrow> u_extends s)"

definition ext_of :: "model \<Rightarrow> string \<Rightarrow> string set" where
  "ext_of m x = (case m x of None \<Rightarrow> {} | Some s \<Rightarrow> extends s)"

definition sch_of :: "model \<Rightarrow> string \<Rightarrow> string set" where
  "sch_of m x = (case m x of None \<Rightarrow> {} | Some s \<Rightarrow> schemata s)"

definition nam_of :: "model \<Rightarrow> string \<Rightarrow> string set" where
  "nam_of m x = (case m x of None \<Rightarrow> {} | Some s \<Rightarrow> names s)"

definition dsc_of :: "model \<Rightarrow> string \<Rightarrow> string set" where
  "dsc_of m x = (case m x of None \<Rightarrow> {} | Some s \<Rightarrow> descendants s)"

definition props_of :: "model \<Rightarrow> string \<Rightarrow> (string \<times> property) list" where
  "props_of m x = (case m x of None \<Rightarrow> [] | Some s \<Rightarrow> properties s)"

definition keys_of :: "model \<Rightarrow> string \<Rightarrow> string set" where
  "keys_of m x = fst ` set (props_of m x)"

text \<open>All parents named in \<open>_extends\<close> have been linked.\<close>

definition complete :: "model \<Rightarrow> string \<Rightarrow> bool" where
  "complete m x = (m x \<noteq> None \<and> ext_of m x = set (uext_of m x))"

text \<open>No property of the registry declares a reverse.\<close>

definition no_reverse :: "model \<Rightarrow> bool" where
  "no_reverse m = (\<forall>x. \<forall>item \<in> set (props_of m x). ps_reverse (p_spec (snd item)) = None)"

text \<open>Every parent has a strictly smaller rank: the \<open>extends\<close> graph has no cycle.\<close>

definition acyclic_extends :: "(string \<Rightarrow> nat) \<Rightarrow> model \<Rightarrow> bool" where
  "acyclic_extends rank m = (\<forall>x. \<forall>e \<in> set (uext_of m x). rank e < rank x)"

text \<open>The hierarchy fields are as the constructor leaves them.\<close>

definition fresh :: "model \<Rightarrow> bool" where
  "fresh m = (\<forall>x s. m x = Some s \<longrightarrow>
     extends s = {} \<and> schemata s = {x} \<and> names s = {x} \<and> descendants s = {})"

definition only_properties :: "model \<Rightarrow> model \<Rightarrow> bool" where
  "only_properties m m' =
     (\<forall>y. (m y = None \<longrightarrow> m' y = None) \<and>
          (\<forall>s. m y = Some s \<longrightarrow> (\<exists>ps. m' y = Some (s\<lparr> properties := ps \<rparr>))))"

definition schema_ok :: "bool \<Rightarrow> (string \<Rightarrow> nat) \<Rightarrow> model \<Rightarrow> string \<Rightarrow> bool" where
  "schema_ok full rank m x =
     ((\<forall>e \<in> set (uext_of m x). rank e < rank x) \<and>
      x \<in> sch_of m x \<and>
      (\<forall>a \<in> sch_of m x. a \<noteq> x \<longrightarrow> rank a < rank x) \<and>
      (\<forall>a \<in> sch_of m x. m a \<noteq> None) \<and>
      nam_of m x = sch_of m x \<and>
      ext_of m x \<subseteq> set (uext_of m x) \<and>
      sch_of m x = insert x (\<Union>e \<in> ext_of m x. sch_of m e) \<and>
      (\<forall>e \<in> ext_of m x. complete m e) \<and>
      (\<forall>a \<in> sch_of m x. a \<noteq> x \<longrightarrow> x \<in> dsc_of m a) \<and>
      (full \<longrightarrow> (\<forall>e \<in> ext_of m x. keys_of m e \<subseteq> keys_of m x)))"

definition hierarchy_inv :: "bool \<Rightarrow> (string \<Rightarrow> nat) \<Rightarrow> model \<Rightarrow> bool" where
  "hierarchy_inv full rank m =
     ((\<forall>x. m x \<noteq> None \<longrightarrow> schema_ok full rank m x) \<and> (full \<longrightarrow> no_reverse m))"

definition core_same :: "bool \<Rightarrow> model \<Rightarrow> model \<Rightarrow> string \<Rightarrow> bool" where
  "core_same full m m' y =
     (ext_of m' y = ext_of m y \<and> sch_of m' y = sch_of m y \<and> nam_of m' y = nam_of m y \<and>
      (full \<longrightarrow> props_of m' y = props_of m y))"

definition step_post :: "bool \<Rightarrow> (string \<Rightarrow> nat) \<Rightarrow> string \<Rightarrow> model \<Rightarrow> model \<Rightarrow> bool" where
  "step_post full rank x m m' =
     (hierarchy_inv full rank m' \<and> uext_of m' = uext_of m \<and>
      (\<forall>y. (m' y = None) = (m y = None)) \<and>
      (\<forall>y. dsc_of m y \<subseteq> dsc_of m' y) \<and>
      ext_of m x \<subseteq> ext_of m' x \<and>
      (\<forall>y. complete m y \<or> rank x < rank y \<longrightarrow> core_same full m m' y) \<and>
      (complete m x \<longrightarrow> dsc_of m' = dsc_of m) \<and>
      (full \<and> complete m x \<longrightarrow> m' = m))"

definition parents :: "model \<Rightarrow> (string \<times> string) set" where
  "parents m = {(x, e). e \<in> set (uext_of m x)}"


section \<open>Verification\<close>

subsection \<open>Dictionaries built by assignment in a loop\<close>

lemma update_fresh: "k \<notin> fst ` set al \<Longrightarrow> AList.update k v al = al @ [(k, v)]"
  by (induction al) auto

lemma map_filter_empty: "List.map_filter f xs = [] \<longleftrightarrow> (\<forall>x \<in> set xs. f x = None)"
  by (induction xs) (auto simp: List.map_filter_simps split: option.splits)

lemma map_filter_mem: "y \<in> set (List.map_filter f xs) \<longleftrightarrow> (\<exists>x \<in> set xs. f x = Some y)"
  by (induction xs) (auto simp: List.map_filter_simps split: option.splits)

lemma fold_update_collect:
  "distinct (map fst items) \<Longrightarrow> fst ` set acc \<inter> fst ` set items = {} \<Longrightarrow>
   foldl (\<lambda>acc item. case f item of None \<Rightarrow> acc | Some v \<Rightarrow> AList.update (fst item) v acc)
     acc items =
   acc @ List.map_filter (\<lambda>item. map_option (Pair (fst item)) (f item)) items"
proof (induction items arbitrary: acc)
  case Nil
  then show ?case by (simp add: List.map_filter_simps)
next
  case (Cons item items)
  have d: "distinct (map fst items)" using Cons.prems by simp
  show ?case
  proof (cases "f item")
    case None
    with Cons show ?thesis by (simp add: List.map_filter_simps)
  next
    case (Some v)
    have fresh: "fst item \<notin> fst ` set acc" using Cons.prems by auto
    have disj: "fst ` set (acc @ [(fst item, v)]) \<inter> fst ` set items = {}"
      using Cons.prems by auto
    show ?thesis
      using Cons.IH [OF d disj] Some fresh by (simp add: List.map_filter_simps update_fresh)
  qed
qed

subsection \<open>Construction\<close>

text \<open>
  C9. After construction the hidden flag is false whenever the abstract flag is true,
  whatever value the input gives for \<open>hidden\<close>; when the abstract flag is false, the
  hidden flag is the boolean given in the input, false when the input gives none.
\<close>

theorem init_hidden_not_abstract:
  "(abstract (schema_init g nm data) \<longrightarrow> \<not> hidden (schema_init g nm data)) \<and>
   (\<not> abstract (schema_init g nm data) \<longrightarrow>
      hidden (schema_init g nm data) = (case ss_hidden data of None \<Rightarrow> False | Some b \<Rightarrow> b))"
  by (cases "ss_hidden data") (simp_all add: schema_init_def Let_def)

theorem init_hidden_not_abstract_witness:
  "abstract ex_thing \<and> ss_hidden (no_spec\<lparr> ss_abstract := Some True, ss_hidden := Some True,
       ss_properties := Some [(''name'', string_prop)] \<rparr>) = Some True \<and> \<not> hidden ex_thing \<and>
   \<not> abstract ex_legal_entity \<and> hidden ex_legal_entity"
  using init_hidden_not_abstract [of id "''Thing''" "no_spec\<lparr> ss_abstract := Some True,
           ss_hidden := Some True, ss_properties := Some [(''name'', string_prop)] \<rparr>"]
        init_hidden_not_abstract [of id "''LegalEntity''" "no_spec\<lparr> ss_extends := Some [''Thing''],
           ss_hidden := Some True, ss_properties := Some [(''country'', string_prop)] \<rparr>"]
  by (simp add: ex_thing_def ex_legal_entity_def no_spec_def schema_init_def Let_def)

subsection \<open>Serialisation\<close>

text \<open>
  C7, as the claim states it, fails for \<open>matchable\<close>: a schema built without any flag has
  the default \<open>matchable = True\<close> and its serialised form carries the key, while a schema
  with the non-default \<open>matchable = False\<close> has no such key, so absence of the key does
  not mean the default.
\<close>

theorem to_dict_matchable_counterexample:
  "matchable (schema_init id ''Thing'' no_spec) = True \<and>
   td_matchable (to_dict id ex_ptd (schema_init id ''Thing'' no_spec)) = Some True \<and>
   matchable ex_plot = False \<and>
   td_matchable (to_dict id ex_ptd ex_plot) = None"
  by (simp add: to_dict_def schema_init_def ex_plot_def no_spec_def Let_def)

text \<open>
  C7, amended. \<open>to_dict\<close> includes the featured, required and caption lists and the
  description exactly when they are non-empty, and each of the flags abstract, hidden,
  generated and matchable exactly when the flag is true, with the value \<open>True\<close>. Absence
  of a flag's key means false: the default for abstract, hidden and generated, but not
  for matchable, whose default is true (a schema built without flags serialises
  \<open>matchable\<close> and none of the other three).
\<close>

theorem to_dict_sparse:
  "(td_featured (to_dict g ptd s) = None \<longleftrightarrow> featured s = []) \<and>
   (td_required (to_dict g ptd s) = None \<longleftrightarrow> required s = []) \<and>
   (td_caption (to_dict g ptd s) = None \<longleftrightarrow> caption s = []) \<and>
   (td_description (to_dict g ptd s) = None \<longleftrightarrow>
      (u_description s = None \<or> map_option g (u_description s) = Some [])) \<and>
   td_featured (to_dict g ptd s) \<in> {None, Some (featured s)} \<and>
   td_required (to_dict g ptd s) \<in> {None, Some (required s)} \<and>
   td_caption (to_dict g ptd s) \<in> {None, Some (caption s)} \<and>
   td_description (to_dict g ptd s) \<in> {None, map_option g (u_description s)} \<and>
   (td_abstract (to_dict g ptd s) = None \<longleftrightarrow> \<not> abstract s) \<and>
   (td_hidden (to_dict g ptd s) = None \<longleftrightarrow> \<not> hidden s) \<and>
   (td_generated (to_dict g ptd s) = None \<longleftrightarrow> \<not> generated s) \<and>
   (td_matchable (to_dict g ptd s) = None \<longleftrightarrow> \<not> matchable s) \<and>
   td_abstract (to_dict g ptd s) \<in> {None, Some True} \<and>
   td_hidden (to_dict g ptd s) \<in> {None, Some True} \<and>
   td_generated (to_dict g ptd s) \<in> {None, Some True} \<and>
   td_matchable (to_dict g ptd s) \<in> {None, Some True} \<and>
   td_abstract (to_dict g ptd (schema_init g nm no_spec)) = None \<and>
   td_hidden (to_dict g ptd (schema_init g nm no_spec)) = None \<and>
   td_generated (to_dict g ptd (schema_init g nm no_spec)) = None \<and>
   td_matchable (to_dict g ptd (schema_init g nm no_spec)) = Some True"
  by (cases "u_description s")
     (simp_all add: to_dict_def description_def schema_init_def no_spec_def Let_def)

theorem to_dict_sparse_witness:
  "td_required (to_dict id ex_ptd ex_company) = Some [''name''] \<and>
   td_featured (to_dict id ex_ptd ex_company) = None \<and>
   td_abstract (to_dict id ex_ptd ex_thing) = Some True \<and>
   td_abstract (to_dict id ex_ptd ex_company) = None \<and>
   td_matchable (to_dict id ex_ptd ex_plot) = None \<and>
   td_matchable (to_dict id ex_ptd ex_company) = Some True"
  using to_dict_sparse [of id ex_ptd ex_company] to_dict_sparse [of id ex_ptd ex_thing]
        to_dict_sparse [of id ex_ptd ex_plot]
  by (simp add: to_dict_def ex_company_def ex_thing_def ex_plot_def schema_init_def no_spec_def
        Let_def)

lemma own_properties_filter:
  assumes "distinct (map fst (properties s))"
  shows "own_properties ptd s =
           map (\<lambda>item. (fst item, ptd (snd item)))
             (filter (\<lambda>item. p_schema (snd item) = name s) (properties s))"
proof -
  let ?f = "\<lambda>item. if p_schema (snd item) = name s then Some (ptd (snd item)) else None"
  have step: "(\<lambda>acc (n, p). if p_schema p = name s then AList.update n (ptd p) acc else acc) =
              (\<lambda>acc item. case ?f item of None \<Rightarrow> acc | Some v \<Rightarrow> AList.update (fst item) v acc)"
    by (auto simp: fun_eq_iff)
  have "own_properties ptd s =
          List.map_filter (\<lambda>item. map_option (Pair (fst item)) (?f item)) (properties s)"
    unfolding own_properties_def step
    using fold_update_collect [of "properties s" "[]" ?f] assms by simp
  also have "\<dots> = map (\<lambda>item. (fst item, ptd (snd item)))
                     (filter (\<lambda>item. p_schema (snd item) = name s) (properties s))"
    by (induction "properties s" arbitrary: s rule: list.induct)
       (simp_all add: List.map_filter_def)
  finally show ?thesis .
qed

text \<open>
  C8, as the claim states it, fails: it takes the edge source and target to be present
  when \<open>edge\<close> holds, that is, when both are not \<open>None\<close>. With the empty string as
  source, \<open>edge\<close> holds and the localised label is not empty, yet \<open>to_dict\<close> has no edge
  block, because it tests the truth value of source and target.
\<close>

theorem to_dict_edge_counterexample:
  "edge ex_empty_source \<and> edge_source ex_empty_source = Some [] \<and>
   edge_target ex_empty_source = Some ''asset'' \<and>
   edge_label id ex_empty_source = Some ''Ownership'' \<and>
   td_edge (to_dict id ex_ptd ex_empty_source) = None"
  by (simp add: to_dict_def ex_empty_source_def schema_init_def no_spec_def Let_def edge_label_def)

text \<open>
  C8, amended. \<open>to_dict\<close> includes the edge block (source, target, caption, label,
  directed) exactly when the edge source and the edge target are given and are not the
  empty string and the localised edge label is not empty; so the block is omitted when
  \<open>edge\<close> holds but the label localises to the empty string, and also when \<open>edge\<close> holds
  but the source or the target is the empty string. The \<open>properties\<close> entry holds, in
  order, exactly the properties of the merged map whose owner is the schema itself.
\<close>

theorem to_dict_edge_and_own_properties:
  assumes "distinct (map fst (properties s))"
  shows "(td_edge (to_dict g ptd s) \<noteq> None \<longleftrightarrow>
            truthy (edge_source s) \<and> truthy (edge_target s) \<and> g (u_edge_label s) \<noteq> []) \<and>
         (td_edge (to_dict g ptd s) \<noteq> None \<longrightarrow>
            td_edge (to_dict g ptd s) =
              Some \<lparr> es_source = edge_source s, es_target = edge_target s,
                     es_caption = Some (edge_caption s),
                     es_label = Some (g (u_edge_label s)),
                     es_directed = Some (edge_directed s) \<rparr>) \<and>
         (edge s \<and> g (u_edge_label s) = [] \<longrightarrow> td_edge (to_dict g ptd s) = None) \<and>
         td_properties (to_dict g ptd s) =
           map (\<lambda>item. (fst item, ptd (snd item)))
             (filter (\<lambda>item. p_schema (snd item) = name s) (properties s)) \<and>
         (\<forall>n v. (n, v) \<in> set (td_properties (to_dict g ptd s)) \<longleftrightarrow>
            (\<exists>p. (n, p) \<in> set (properties s) \<and> p_schema p = name s \<and> v = ptd p))"
proof -
  have p: "td_properties (to_dict g ptd s) =
             map (\<lambda>item. (fst item, ptd (snd item)))
               (filter (\<lambda>item. p_schema (snd item) = name s) (properties s))"
    using own_properties_filter [OF assms] by (simp add: to_dict_def)
  have q: "\<forall>n v. (n, v) \<in> set (td_properties (to_dict g ptd s)) \<longleftrightarrow>
            (\<exists>p. (n, p) \<in> set (properties s) \<and> p_schema p = name s \<and> v = ptd p)"
    unfolding p by force
  have e: "(td_edge (to_dict g ptd s) \<noteq> None \<longleftrightarrow>
            truthy (edge_source s) \<and> truthy (edge_target s) \<and> g (u_edge_label s) \<noteq> [])"
    by (simp add: to_dict_def edge_label_def)
  have v: "td_edge (to_dict g ptd s) \<noteq> None \<longrightarrow>
            td_edge (to_dict g ptd s) =
              Some \<lparr> es_source = edge_source s, es_target = edge_target s,
                     es_caption = Some (edge_caption s),
                     es_label = Some (g (u_edge_label s)),
                     es_directed = Some (edge_directed s) \<rparr>"
    by (simp add: to_dict_def edge_label_def)
  have o: "edge s \<and> g (u_edge_label s) = [] \<longrightarrow> td_edge (to_dict g ptd s) = None"
    by (simp add: to_dict_def edge_label_def)
  show ?thesis using p q e v o by blast
qed

theorem to_dict_edge_and_own_properties_witness:
  "distinct (map fst (properties ex_ownership)) \<and>
   td_edge (to_dict id ex_ptd ex_ownership) \<noteq> None \<and>
   edge ex_ownership \<and> ex_blank (u_edge_label ex_ownership) = [] \<and>
   td_edge (to_dict ex_blank ex_ptd ex_ownership) = None \<and>
   td_properties (to_dict id ex_ptd ex_ownership) = [(''owner'', ''owner''), (''asset'', ''asset'')]"
  using to_dict_edge_and_own_properties [of ex_ownership id ex_ptd]
        to_dict_edge_and_own_properties [of ex_ownership ex_blank ex_ptd]
  by (simp add: ex_ownership_def ex_blank_def ex_ptd_def schema_init_def no_spec_def Let_def
        init_properties_def Property_def string_prop_def)

subsection \<open>Validation\<close>

lemma prop_values_spec:
  "prop_values (get_default (d_properties data) []) n = spec_values data n"
  by (cases "d_properties data"; cases "map_of (the (d_properties data)) n")
     (auto simp: prop_values_def spec_values_def)

lemma validate_step_spec:
  "validate_step g pv s (get_default (d_properties data) []) errors item =
     (case spec_property_error g pv s data item of
        None \<Rightarrow> errors
      | Some e \<Rightarrow> AList.update (fst item) e errors)"
  by (auto simp: validate_step_def spec_property_error_def prop_values_spec Let_def
           split: option.splits)

lemma validate_errors_spec:
  assumes "distinct (map fst (properties s))"
  shows "validate_errors g pv s data = spec_errors g pv s data"
proof -
  have step: "validate_step g pv s (get_default (d_properties data) []) =
              (\<lambda>acc item. case spec_property_error g pv s data item of
                             None \<Rightarrow> acc | Some v \<Rightarrow> AList.update (fst item) v acc)"
    by (simp add: fun_eq_iff validate_step_spec)
  show ?thesis
    unfolding validate_errors_def spec_errors_def step
    using fold_update_collect [of "properties s" "[]" "spec_property_error g pv s data"] assms
    by simp
qed

lemma spec_errors_mem:
  "(n, e) \<in> set (spec_errors g pv s data) \<longleftrightarrow>
     (\<exists>p. (n, p) \<in> set (properties s) \<and> spec_property_error g pv s data (n, p) = Some e)"
  by (force simp: spec_errors_def map_filter_mem)

text \<open>
  C4. \<open>validate\<close> examines every property of the merged property set, whether or not the
  input has a value for it, taking an absent value as the empty list; a property with no
  value-level error, no values and a name listed in \<open>required\<close> gets the (localised)
  error \<open>Required\<close>. The errors of all properties are collected, one entry per offending
  property in the order of the property set, and the call raises the entity validation
  error carrying that whole mapping exactly when the mapping is not empty; otherwise it
  returns nothing.
\<close>

theorem validate_collects_all:
  assumes "distinct (map fst (properties s))"
  shows "validate_errors g pv s data = spec_errors g pv s data \<and>
         fst (validate g pv s data) =
           (if spec_errors g pv s data = [] then Inr ()
            else Inl (InvalidData (g ''Entity validation failed'') (spec_errors g pv s data))) \<and>
         (\<forall>n e. (n, e) \<in> set (spec_errors g pv s data) \<longleftrightarrow>
            (\<exists>p. (n, p) \<in> set (properties s) \<and>
                 spec_property_error g pv s data (n, p) = Some e)) \<and>
         (fst (validate g pv s data) = Inr () \<longleftrightarrow>
            (\<forall>item \<in> set (properties s). spec_property_error g pv s data item = None)) \<and>
         (\<forall>n p. (n, p) \<in> set (properties s) \<and> pv p [] = None \<and>
                 spec_values data n = [] \<and> p_name p \<in> set (required s) \<longrightarrow>
                 (n, g ''Required'') \<in> set (spec_errors g pv s data))"
proof -
  have e: "validate_errors g pv s data = spec_errors g pv s data"
    using assms by (rule validate_errors_spec)
  have m: "\<forall>n e. (n, e) \<in> set (spec_errors g pv s data) \<longleftrightarrow>
             (\<exists>p. (n, p) \<in> set (properties s) \<and>
                  spec_property_error g pv s data (n, p) = Some e)"
    by (simp add: spec_errors_mem)
  have z: "spec_errors g pv s data = [] \<longleftrightarrow>
             (\<forall>item \<in> set (properties s). spec_property_error g pv s data item = None)"
    by (simp add: spec_errors_def map_filter_empty)
  have r: "\<forall>n p. (n, p) \<in> set (properties s) \<and> pv p [] = None \<and>
                 spec_values data n = [] \<and> p_name p \<in> set (required s) \<longrightarrow>
                 (n, g ''Required'') \<in> set (spec_errors g pv s data)"
    by (auto simp: spec_errors_mem spec_property_error_def)
  have f: "fst (validate g pv s data) =
           (if spec_errors g pv s data = [] then Inr ()
            else Inl (InvalidData (g ''Entity validation failed'') (spec_errors g pv s data)))"
    using e by (simp add: validate_def Let_def)
  have s: "fst (validate g pv s data) = Inr () \<longleftrightarrow>
            (\<forall>item \<in> set (properties s). spec_property_error g pv s data item = None)"
    using f z by simp
  show ?thesis using e f m s r by blast
qed

theorem validate_collects_all_witness:
  "distinct (map fst (properties ex_person)) \<and>
   fst (validate id ex_pv ex_person
          \<lparr> d_properties = Some [(''phone'', PyList [''bad'']), (''email'', PyScalar ''bad''),
                                 (''nickname'', PyScalar ''x'')] \<rparr>) =
     Inl (InvalidData ''Entity validation failed''
            [(''name'', ''Required''), (''email'', ''Invalid''), (''phone'', ''Invalid'')]) \<and>
   fst (validate id ex_pv ex_person \<lparr> d_properties = Some [(''name'', PyScalar ''Ada'')] \<rparr>) = Inr ()"
proof -
  let ?bad = "\<lparr> d_properties = Some [(''phone'', PyList [''bad'']), (''email'', PyScalar ''bad''),
                                   (''nickname'', PyScalar ''x'')] \<rparr>"
  let ?good = "\<lparr> d_properties = Some [(''name'', PyScalar ''Ada'')] \<rparr>"
  have props: "properties ex_person =
     [(''name'', Property ''Person'' ''name'' string_prop),
      (''email'', Property ''Person'' ''email'' string_prop),
      (''phone'', Property ''Person'' ''phone'' string_prop)]"
    by (simp add: ex_person_def schema_init_def no_spec_def Let_def init_properties_def)
  have req: "required ex_person = [''name'']"
    by (simp add: ex_person_def schema_init_def no_spec_def Let_def)
  have d: "distinct (map fst (properties ex_person))"
    by (simp add: props)
  have bad: "spec_errors id ex_pv ex_person ?bad =
               [(''name'', ''Required''), (''email'', ''Invalid''), (''phone'', ''Invalid'')]"
    by (simp add: spec_errors_def props req spec_property_error_def spec_values_def
          List.map_filter_simps ex_pv_def Property_def)
  have good: "spec_errors id ex_pv ex_person ?good = []"
    by (simp add: spec_errors_def props req spec_property_error_def spec_values_def
          List.map_filter_simps ex_pv_def Property_def)
  have b: "fst (validate id ex_pv ex_person ?bad) =
           (if spec_errors id ex_pv ex_person ?bad = [] then Inr ()
            else Inl (InvalidData (id ''Entity validation failed'')
                        (spec_errors id ex_pv ex_person ?bad)))"
    using validate_collects_all [OF d, of id ex_pv ?bad] by (rule conjunct1 [OF conjunct2])
  have g: "fst (validate id ex_pv ex_person ?good) =
           (if spec_errors id ex_pv ex_person ?good = [] then Inr ()
            else Inl (InvalidData (id ''Entity validation failed'')
                        (spec_errors id ex_pv ex_person ?good)))"
    using validate_collects_all [OF d, of id ex_pv ?good] by (rule conjunct1 [OF conjunct2])
  show ?thesis
    using d b g by (simp only: bad good) simp
qed







subsection \<open>Matchable schemata\<close>

text \<open>
  C6. On first access (empty cache) \<open>matchable_schemata\<close> is the empty set when the
  schema is not matchable, and otherwise the union of \<open>schemata\<close> (the ancestors and the
  schema itself) and \<open>descendants\<close>, filtered to the schemata whose matchable flag is
  true. The set is stored in the cache, and every later access, in whatever registry
  still holds that cache, returns the same set and leaves the registry alone.
  \<open>can_match(other)\<close> is membership of \<open>other\<close> in the set.
\<close>

theorem matchable_schemata_memoized:
  assumes "m self = Some s" and "u_matchable_schemata s = None"
  shows "fst (matchable_schemata m self) =
           (if matchable s then {c \<in> schemata s \<union> descendants s. is_matchable m c} else {}) \<and>
         (\<not> matchable s \<longrightarrow> fst (matchable_schemata m self) = {}) \<and>
         snd (matchable_schemata m self) =
           m(self \<mapsto> s\<lparr> u_matchable_schemata := Some (fst (matchable_schemata m self)) \<rparr>) \<and>
         matchable_schemata (snd (matchable_schemata m self)) self =
           (fst (matchable_schemata m self), snd (matchable_schemata m self)) \<and>
         (\<forall>m2 s2. m2 self = Some s2 \<and>
                  u_matchable_schemata s2 = Some (fst (matchable_schemata m self)) \<longrightarrow>
                  matchable_schemata m2 self = (fst (matchable_schemata m self), m2)) \<and>
         (\<forall>other. can_match m self other =
                  (other \<in> fst (matchable_schemata m self), snd (matchable_schemata m self))) \<and>
         (\<forall>other. fst (can_match (snd (matchable_schemata m self)) self other) =
                  (other \<in> fst (matchable_schemata m self)))"
proof -
  let ?ms = "if matchable s then {c \<in> schemata s \<union> descendants s. is_matchable m c} else {}"
  let ?m' = "m(self \<mapsto> s\<lparr> u_matchable_schemata := Some ?ms \<rparr>)"
  have r: "matchable_schemata m self = (?ms, ?m')"
    using assms by (simp add: matchable_schemata_def Let_def)
  have c: "matchable_schemata m2 self = (ms, m2)"
    if "m2 self = Some s2 \<and> u_matchable_schemata s2 = Some ms" for m2 s2 ms
    using that by (simp add: matchable_schemata_def)
  have again: "matchable_schemata ?m' self = (?ms, ?m')"
    by (rule c [where ?s2.0 = "s\<lparr> u_matchable_schemata := Some ?ms \<rparr>"]) simp
  have f: "fst (matchable_schemata m self) = ?ms" and g: "snd (matchable_schemata m self) = ?m'"
    by (simp_all only: r fst_conv snd_conv)
  have c1: "\<not> matchable s \<longrightarrow> ?ms = {}" by simp
  have c2: "\<forall>m2 s2. m2 self = Some s2 \<and> u_matchable_schemata s2 = Some ?ms \<longrightarrow>
                  matchable_schemata m2 self = (?ms, m2)"
    using c by blast
  have c3: "\<forall>other. can_match m self other = (other \<in> ?ms, ?m')"
    by (simp only: can_match_def r Let_def split_conv) simp
  have c4: "\<forall>other. fst (can_match ?m' self other) = (other \<in> ?ms)"
    by (simp only: can_match_def again Let_def split_conv fst_conv) simp
  show ?thesis
    unfolding f g using c1 c2 c3 c4 again by (intro conjI) (rule refl | assumption)+
qed

theorem matchable_schemata_memoized_witness:
  "ex_generated ''Thing'' \<noteq> None \<and>
   u_matchable_schemata (the (ex_generated ''Thing'')) = None \<and>
   matchable (the (ex_generated ''Thing'')) \<and>
   fst (matchable_schemata ex_generated ''Thing'') = {''Thing'', ''LegalEntity'', ''Company''} \<and>
   fst (can_match ex_generated ''Thing'' ''Plot'') = False \<and>
   fst (matchable_schemata ex_generated ''Plot'') = {}"
proof -
  have a: "case ex_generated ''Thing'' of None \<Rightarrow> False
           | Some s \<Rightarrow> u_matchable_schemata s = None \<and> matchable s"
    by code_simp
  have b: "case ex_generated ''Plot'' of None \<Rightarrow> False
           | Some s \<Rightarrow> u_matchable_schemata s = None \<and> \<not> matchable s"
    by code_simp
  obtain s where s: "ex_generated ''Thing'' = Some s" "u_matchable_schemata s = None" "matchable s"
    using a by (auto split: option.splits)
  obtain p where p: "ex_generated ''Plot'' = Some p" "u_matchable_schemata p = None" "\<not> matchable p"
    using b by (auto split: option.splits)
  have v: "(if matchable s then {c \<in> schemata s \<union> descendants s. is_matchable ex_generated c} else {})
             = {''Thing'', ''LegalEntity'', ''Company''}"
  proof -
    have "case ex_generated ''Thing'' of None \<Rightarrow> False
           | Some s \<Rightarrow> (if matchable s then Set.filter (is_matchable ex_generated) (schemata s \<union> descendants s) else {})
             = {''Thing'', ''LegalEntity'', ''Company''}"
      by code_simp
    then show ?thesis using s by simp
  qed
  note t = matchable_schemata_memoized [of ex_generated "''Thing''" s, OF s(1) s(2)]
  note q = matchable_schemata_memoized [of ex_generated "''Plot''" p, OF p(1) p(2)]
  have t1: "fst (matchable_schemata ex_generated ''Thing'') = {''Thing'', ''LegalEntity'', ''Company''}"
    using t v by simp
  have t2: "fst (can_match ex_generated ''Thing'' ''Plot'') = False"
    using t t1 by simp
  have q1: "fst (matchable_schemata ex_generated ''Plot'') = {}"
    using q p(3) by simp
  show ?thesis using s p t1 t2 q1 by simp
qed

subsection \<open>Views of the registry\<close>

subsection \<open>Results\<close>

lemma bind_r_Inr:
  "bind_r r k = Some (Inr y) \<longleftrightarrow> (\<exists>x. r = Some (Inr x) \<and> k x = Some (Inr y))"
  by (auto simp: bind_r_def split: option.splits sum.splits)

lemma bind_r_Inl:
  "bind_r r k = Some (Inl e) \<longleftrightarrow>
     r = Some (Inl e) \<or> (\<exists>x. r = Some (Inr x) \<and> k x = Some (Inl e))"
  by (auto simp: bind_r_def split: option.splits sum.splits)

lemma bind_r_simps [simp]:
  "bind_r None k = None"
  "bind_r (Some (Inl e)) k = Some (Inl e)"
  "bind_r (Some (Inr x)) k = k x"
  by (simp_all add: bind_r_def)

subsection \<open>Merging property maps\<close>

lemma merge_properties_Nil [simp]: "merge_properties own [] = own"
  by (simp add: merge_properties_def)

lemma merge_properties_Cons:
  "merge_properties own (item # rest) =
     merge_properties (if map_of own (fst item) = None then AList.update (fst item) (snd item) own else own) rest"
  by (cases item) (simp add: merge_properties_def)


lemma keys_merge_properties:
  "fst ` set (merge_properties own inh) = fst ` set own \<union> fst ` set inh"
proof (induction inh arbitrary: own)
  case Nil
  then show ?case by simp
next
  case (Cons item rest)
  have "map_of own (fst item) \<noteq> None \<Longrightarrow> fst item \<in> fst ` set own"
    by (simp add: map_of_eq_None_iff)
  then show ?case
    by (auto simp: merge_properties_Cons Cons.IH dom_update)
qed

lemma merge_properties_absorb:
  "fst ` set inh \<subseteq> fst ` set own \<Longrightarrow> merge_properties own inh = own"
proof (induction inh)
  case Nil
  then show ?case by simp
next
  case (Cons item rest)
  then have "fst item \<in> fst ` set own" by simp
  then obtain p where "map_of own (fst item) = Some p"
    by (metis map_of_eq_None_iff not_Some_eq)
  then have "merge_properties own (item # rest) = merge_properties own rest"
    by (simp add: merge_properties_Cons)
  with Cons show ?case by simp
qed

lemma distinct_merge_properties:
  "distinct (map fst own) \<Longrightarrow> distinct (map fst (merge_properties own inh))"
proof (induction inh arbitrary: own)
  case Nil
  then show ?case by simp
next
  case (Cons item rest)
  then show ?case by (simp add: merge_properties_Cons distinct_update)
qed

lemma set_merge_properties:
  "set (merge_properties own inh) \<subseteq> set own \<union> set inh"
proof (induction inh arbitrary: own)
  case Nil
  then show ?case by simp
next
  case (Cons item rest)
  show ?case
  proof (cases "map_of own (fst item)")
    case None
    then have "fst item \<notin> fst ` set own" by (simp add: map_of_eq_None_iff)
    then have u: "AList.update (fst item) (snd item) own = own @ [item]"
      by (simp add: update_fresh)
    show ?thesis
      using Cons.IH [of "own @ [item]"] None u by (auto simp: merge_properties_Cons)
  next
    case (Some p)
    then show ?thesis
      using Cons.IH [of own] by (auto simp: merge_properties_Cons)
  qed
qed

subsection \<open>Property generation touches property maps only\<close>

lemma only_properties_None: "only_properties m m' \<Longrightarrow> m y = None \<Longrightarrow> m' y = None"
  by (simp add: only_properties_def)

lemma only_properties_Some:
  "only_properties m m' \<Longrightarrow> m y = Some s \<Longrightarrow> \<exists>ps. m' y = Some (s\<lparr> properties := ps \<rparr>)"
  by (simp add: only_properties_def)

lemma same_but_properties: "\<exists>ps. s = s\<lparr> properties := ps \<rparr>" for s :: schema
  by (rule exI [of _ "properties s"]) simp

lemma only_properties_refl: "only_properties m m"
  by (simp add: only_properties_def same_but_properties)

lemma only_properties_trans:
  assumes "only_properties m m1" and "only_properties m1 m2"
  shows "only_properties m m2"
  unfolding only_properties_def
proof (intro allI conjI impI)
  fix y
  assume "m y = None"
  then have "m1 y = None" using assms(1) by (rule only_properties_None [rotated])
  then show "m2 y = None" using assms(2) by (rule only_properties_None [rotated])
next
  fix y s
  assume "m y = Some s"
  then obtain ps where 1: "m1 y = Some (s\<lparr> properties := ps \<rparr>)"
    using only_properties_Some [OF assms(1)] by blast
  then obtain ps' where "m2 y = Some (s\<lparr> properties := ps, properties := ps' \<rparr>)"
    using only_properties_Some [OF assms(2)] by blast
  then have "m2 y = Some (s\<lparr> properties := ps' \<rparr>)" by simp
  then show "\<exists>ps. m2 y = Some (s\<lparr> properties := ps \<rparr>)" ..
qed

lemma upd_schema_apply:
  "upd_schema x f m y = (if y = x then map_option f (m x) else m y)"
  by (simp add: upd_schema_def split: option.splits)

lemma only_properties_upd:
  "only_properties m (upd_schema x (\<lambda>s. s\<lparr> properties := f (properties s) \<rparr>) m)"
  unfolding only_properties_def
proof (intro allI conjI impI)
  fix y
  assume "m y = None"
  then show "upd_schema x (\<lambda>s. s\<lparr> properties := f (properties s) \<rparr>) m y = None"
    by (auto simp: upd_schema_apply)
next
  fix y s
  assume s: "m y = Some s"
  show "\<exists>ps. upd_schema x (\<lambda>s. s\<lparr> properties := f (properties s) \<rparr>) m y = Some (s\<lparr> properties := ps \<rparr>)"
  proof (cases "y = x")
    case True
    with s have "upd_schema x (\<lambda>s. s\<lparr> properties := f (properties s) \<rparr>) m y =
                 Some (s\<lparr> properties := f (properties s) \<rparr>)"
      by (simp add: upd_schema_apply)
    then show ?thesis ..
  next
    case False
    with s have "upd_schema x (\<lambda>s. s\<lparr> properties := f (properties s) \<rparr>) m y = Some s"
      by (simp add: upd_schema_apply)
    then show ?thesis using same_but_properties [of s] by auto
  qed
qed

lemma only_properties_views:
  assumes "only_properties m m'"
  shows "uext_of m' = uext_of m" and "ext_of m' = ext_of m" and "sch_of m' = sch_of m"
    and "nam_of m' = nam_of m" and "dsc_of m' = dsc_of m"
    and "(m' y = None) = (m y = None)"
proof -
  have v: "(m y = None \<and> m' y = None) \<or> (\<exists>s ps. m y = Some s \<and> m' y = Some (s\<lparr> properties := ps \<rparr>))" for y
    using only_properties_None [OF assms, of y] only_properties_Some [OF assms, of y]
    by (cases "m y") auto
  show "uext_of m' = uext_of m"
  proof
    fix y show "uext_of m' y = uext_of m y" using v [of y] by (auto simp: uext_of_def)
  qed
  show "ext_of m' = ext_of m"
  proof
    fix y show "ext_of m' y = ext_of m y" using v [of y] by (auto simp: ext_of_def)
  qed
  show "sch_of m' = sch_of m"
  proof
    fix y show "sch_of m' y = sch_of m y" using v [of y] by (auto simp: sch_of_def)
  qed
  show "nam_of m' = nam_of m"
  proof
    fix y show "nam_of m' y = nam_of m y" using v [of y] by (auto simp: nam_of_def)
  qed
  show "dsc_of m' = dsc_of m"
  proof
    fix y show "dsc_of m' y = dsc_of m y" using v [of y] by (auto simp: dsc_of_def)
  qed
  show "(m' y = None) = (m y = None)"
    using v [of y] by auto
qed

lemma add_reverse_only_properties:
  assumes pg: "\<And>m p m'. pg m p = Some (Inr m') \<Longrightarrow> only_properties m m'"
    and r: "add_reverse pg m self data other = Some (Inr (m', q))"
  shows "only_properties m m'"
proof (cases "rs_name data")
  case None
  with r show ?thesis by (simp add: add_reverse_def)
next
  case (Some nm)
  show ?thesis
  proof (cases "m self")
    case None
    with r Some show ?thesis by (simp add: add_reverse_def)
  next
    case (Some s)
    note s = this
    show ?thesis
    proof (cases "map_of (properties s) nm")
      case (Some found)
      with r s \<open>rs_name data = Some nm\<close> have "m' = m" by (simp add: add_reverse_def)
      then show ?thesis by (simp add: only_properties_refl)
    next
      case None
      let ?stub = "(Property self nm (reverse_stub_spec data other))\<lparr> p_stub := True \<rparr>"
      from r s None \<open>rs_name data = Some nm\<close>
      obtain m1 where 1: "pg m ?stub = Some (Inr m1)"
        and 2: "m' = upd_schema self (\<lambda>s'. s'\<lparr> properties := AList.update nm ?stub (properties s') \<rparr>) m1"
        by (auto simp: add_reverse_def Let_def bind_r_Inr)
      have "only_properties m m1" using 1 by (rule pg)
      moreover have "only_properties m1 m'" unfolding 2 by (rule only_properties_upd)
      ultimately show ?thesis by (rule only_properties_trans)
    qed
  qed
qed

lemma prop_generate_body_only_properties:
  assumes ar: "\<And>m self data other m' q. ar m self data other = Some (Inr (m', q)) \<Longrightarrow> only_properties m m'"
    and r: "prop_generate_body ar m p = Some (Inr m')"
  shows "only_properties m m'"
proof -
  consider (same) "m' = m" | (rev) r' d res where "ar m r' d p = Some (Inr res)" "m' = fst res"
    using r by (auto simp: prop_generate_body_def bind_r_Inr split: if_splits option.splits)
  then show ?thesis
  proof cases
    case same
    then show ?thesis by (simp add: only_properties_refl)
  next
    case rev
    then show ?thesis using ar [of m r' d p "fst res" "snd res"] by simp
  qed
qed

lemma prop_generate_only_properties:
  "prop_generate f m p = Some (Inr m') \<Longrightarrow> only_properties m m'"
proof (induction f arbitrary: m p m')
  case 0
  then show ?case by simp
next
  case (Suc f)
  show ?case
  proof (rule prop_generate_body_only_properties)
    show "prop_generate_body (add_reverse (prop_generate f)) m p = Some (Inr m')"
      using Suc.prems by simp
  next
    fix m self data other m' q
    assume "add_reverse (prop_generate f) m self data other = Some (Inr (m', q))"
    then show "only_properties m m'"
      by (rule add_reverse_only_properties [rotated]) (rule Suc.IH)
  qed
qed

lemma props_loop_only_properties:
  assumes pg: "\<And>m p m'. pg m p = Some (Inr m') \<Longrightarrow> only_properties m m'"
  shows "props_loop pg m ps = Some (Inr m') \<Longrightarrow> only_properties m m'"
proof (induction ps arbitrary: m)
  case Nil
  then show ?case by (simp add: only_properties_refl)
next
  case (Cons p ps)
  then obtain m1 where 1: "pg m p = Some (Inr m1)" and 2: "props_loop pg m1 ps = Some (Inr m')"
    by (auto simp: bind_r_Inr)
  show ?case
    using pg [OF 1] Cons.IH [OF 2] by (rule only_properties_trans)
qed

lemma generate_props_only_properties:
  "generate_props (prop_generate f) x m = Some (Inr m') \<Longrightarrow> only_properties m m'"
  by (auto simp: generate_props_def split: option.splits
           intro: props_loop_only_properties prop_generate_only_properties)

subsection \<open>Without reverse declarations property generation changes nothing\<close>

lemma prop_generate_no_reverse:
  "ps_reverse (p_spec p) = None \<Longrightarrow> prop_generate (Suc f) m p = Some (Inr m)"
  by (simp add: prop_generate_body_def split: option.splits)

lemma prop_generate_no_reverse_same:
  "ps_reverse (p_spec p) = None \<Longrightarrow> prop_generate f m p = Some (Inr m') \<Longrightarrow> m' = m"
  by (cases f) (auto simp: prop_generate_body_def split: option.splits if_splits)

lemma props_loop_no_reverse_same:
  "\<forall>p \<in> set ps. ps_reverse (p_spec p) = None \<Longrightarrow>
   props_loop (prop_generate f) m ps = Some (Inr m') \<Longrightarrow> m' = m"
proof (induction ps arbitrary: m)
  case Nil
  then show ?case by simp
next
  case (Cons p ps)
  then obtain m1 where 1: "prop_generate f m p = Some (Inr m1)"
    and 2: "props_loop (prop_generate f) m1 ps = Some (Inr m')"
    by (auto simp: bind_r_Inr)
  have "m1 = m" using Cons.prems(1) 1 by (auto dest: prop_generate_no_reverse_same)
  with Cons 2 show ?case by simp
qed

lemma generate_props_no_reverse_same:
  assumes "no_reverse m" and "generate_props (prop_generate f) x m = Some (Inr m')"
  shows "m' = m"
proof -
  obtain s where s: "m x = Some s"
    and l: "props_loop (prop_generate f) m (map snd (properties s)) = Some (Inr m')"
    using assms(2) by (auto simp: generate_props_def split: option.splits)
  have "\<forall>p \<in> set (map snd (properties s)). ps_reverse (p_spec p) = None"
    using assms(1) s unfolding no_reverse_def props_of_def
    by (force dest: spec [of _ x])
  then show ?thesis using l by (rule props_loop_no_reverse_same)
qed

lemma link_parent_apply:
  assumes "m e = Some se"
  shows "link_parent x e m y =
     (if y \<in> schemata se
      then map_option (\<lambda>s. s\<lparr> descendants := insert x (descendants s) \<rparr>)
             (if y = x then map_option (\<lambda>s. s\<lparr> properties := merge_properties (properties s) (properties se),
                               extends := insert e (extends s),
                               schemata := schemata s \<union> schemata se,
                               names := names s \<union> schemata se \<rparr>) (m x) else m y)
      else (if y = x then map_option (\<lambda>s. s\<lparr> properties := merge_properties (properties s) (properties se),
                               extends := insert e (extends s),
                               schemata := schemata s \<union> schemata se,
                               names := names s \<union> schemata se \<rparr>) (m x) else m y))"
  using assms by (simp add: link_parent_def Let_def upd_schema_apply)

lemma link_parent_dom: "(link_parent x e m y = None) = (m y = None)"
proof (cases "m e")
  case None
  then show ?thesis by (simp add: link_parent_def)
next
  case (Some se)
  then show ?thesis by (simp add: link_parent_apply)
qed

lemma link_parent_uext: "uext_of (link_parent x e m) = uext_of m"
proof
  fix y
  show "uext_of (link_parent x e m) y = uext_of m y"
  proof (cases "m e")
    case None
    then show ?thesis by (simp add: link_parent_def)
  next
    case (Some se)
    then show ?thesis
      by (cases "m y"; cases "m x") (auto simp: link_parent_apply uext_of_def)
  qed
qed

lemma link_parent_ext:
  assumes "m e \<noteq> None" and "m x \<noteq> None"
  shows "ext_of (link_parent x e m) y = (if y = x then insert e (ext_of m x) else ext_of m y)"
proof -
  obtain se sx where "m e = Some se" and "m x = Some sx" using assms by auto
  then show ?thesis
    by (cases "y \<in> schemata se"; cases "y = x"; cases "m y")
       (simp_all add: link_parent_apply ext_of_def)
qed

lemma link_parent_sch:
  assumes "m e \<noteq> None" and "m x \<noteq> None"
  shows "sch_of (link_parent x e m) y = (if y = x then sch_of m x \<union> sch_of m e else sch_of m y)"
proof -
  obtain se sx where "m e = Some se" and "m x = Some sx" using assms by auto
  then show ?thesis
    by (cases "y \<in> schemata se"; cases "y = x"; cases "m y")
       (simp_all add: link_parent_apply sch_of_def)
qed

lemma link_parent_nam:
  assumes "m e \<noteq> None" and "m x \<noteq> None"
  shows "nam_of (link_parent x e m) y = (if y = x then nam_of m x \<union> sch_of m e else nam_of m y)"
proof -
  obtain se sx where "m e = Some se" and "m x = Some sx" using assms by auto
  then show ?thesis
    by (cases "y \<in> schemata se"; cases "y = x"; cases "m y")
       (simp_all add: link_parent_apply nam_of_def sch_of_def)
qed

lemma link_parent_props:
  assumes "m e \<noteq> None" and "m x \<noteq> None"
  shows "props_of (link_parent x e m) y =
           (if y = x then merge_properties (props_of m x) (props_of m e) else props_of m y)"
proof -
  obtain se sx where "m e = Some se" and "m x = Some sx" using assms by auto
  then show ?thesis
    by (cases "y \<in> schemata se"; cases "y = x"; cases "m y")
       (simp_all add: link_parent_apply props_of_def)
qed

lemma link_parent_dsc:
  assumes "m e \<noteq> None" and "m x \<noteq> None"
  shows "dsc_of (link_parent x e m) y =
           (if y \<in> sch_of m e \<and> m y \<noteq> None then insert x (dsc_of m y) else dsc_of m y)"
proof -
  obtain se sx where "m e = Some se" and "m x = Some sx" using assms by auto
  then show ?thesis
    by (cases "y \<in> schemata se"; cases "y = x"; cases "m y")
       (simp_all add: link_parent_apply dsc_of_def sch_of_def)
qed

lemma link_parent_keys:
  assumes "m e \<noteq> None" and "m x \<noteq> None"
  shows "keys_of (link_parent x e m) y = (if y = x then keys_of m x \<union> keys_of m e else keys_of m y)"
  using assms by (simp add: keys_of_def link_parent_props keys_merge_properties)

lemma link_parent_complete:
  assumes "m e \<noteq> None" and "m x \<noteq> None" and "y \<noteq> x"
  shows "complete (link_parent x e m) y = complete m y"
  using assms by (simp add: complete_def link_parent_dom link_parent_uext link_parent_ext)

lemma hierarchy_inv_ok: "hierarchy_inv full rank m \<Longrightarrow> m x \<noteq> None \<Longrightarrow> schema_ok full rank m x"
  by (simp add: hierarchy_inv_def)

lemma schema_okD:
  assumes "schema_ok full rank m x"
  shows "\<And>e. e \<in> set (uext_of m x) \<Longrightarrow> rank e < rank x"
    and "x \<in> sch_of m x"
    and "\<And>a. a \<in> sch_of m x \<Longrightarrow> a \<noteq> x \<Longrightarrow> rank a < rank x"
    and "\<And>a. a \<in> sch_of m x \<Longrightarrow> m a \<noteq> None"
    and "nam_of m x = sch_of m x"
    and "ext_of m x \<subseteq> set (uext_of m x)"
    and "sch_of m x = insert x (\<Union>e \<in> ext_of m x. sch_of m e)"
    and "\<And>e. e \<in> ext_of m x \<Longrightarrow> complete m e"
    and "\<And>a. a \<in> sch_of m x \<Longrightarrow> a \<noteq> x \<Longrightarrow> x \<in> dsc_of m a"
    and "\<And>e. full \<Longrightarrow> e \<in> ext_of m x \<Longrightarrow> keys_of m e \<subseteq> keys_of m x"
proof -
  note c = assms [unfolded schema_ok_def]
  note c1 = c [THEN conjunct1]
  note r1 = c [THEN conjunct2]
  note c2 = r1 [THEN conjunct1]
  note r2 = r1 [THEN conjunct2]
  note c3 = r2 [THEN conjunct1]
  note r3 = r2 [THEN conjunct2]
  note c4 = r3 [THEN conjunct1]
  note r4 = r3 [THEN conjunct2]
  note c5 = r4 [THEN conjunct1]
  note r5 = r4 [THEN conjunct2]
  note c6 = r5 [THEN conjunct1]
  note r6 = r5 [THEN conjunct2]
  note c7 = r6 [THEN conjunct1]
  note r7 = r6 [THEN conjunct2]
  note c8 = r7 [THEN conjunct1]
  note r8 = r7 [THEN conjunct2]
  note c9 = r8 [THEN conjunct1]
  note c10 = r8 [THEN conjunct2]
  show "\<And>e. e \<in> set (uext_of m x) \<Longrightarrow> rank e < rank x" using c1 by blast
  show "x \<in> sch_of m x" by (rule c2)
  show "\<And>a. a \<in> sch_of m x \<Longrightarrow> a \<noteq> x \<Longrightarrow> rank a < rank x" using c3 by blast
  show "\<And>a. a \<in> sch_of m x \<Longrightarrow> m a \<noteq> None" using c4 by blast
  show "nam_of m x = sch_of m x" by (rule c5)
  show "ext_of m x \<subseteq> set (uext_of m x)" by (rule c6)
  show "sch_of m x = insert x (\<Union>e \<in> ext_of m x. sch_of m e)" by (rule c7)
  show "\<And>e. e \<in> ext_of m x \<Longrightarrow> complete m e" using c8 by blast
  show "\<And>a. a \<in> sch_of m x \<Longrightarrow> a \<noteq> x \<Longrightarrow> x \<in> dsc_of m a" using c9 by blast
  show "\<And>e. full \<Longrightarrow> e \<in> ext_of m x \<Longrightarrow> keys_of m e \<subseteq> keys_of m x" using c10 by blast
qed

lemma schema_okI:
  assumes "\<And>e. e \<in> set (uext_of m x) \<Longrightarrow> rank e < rank x"
    and "x \<in> sch_of m x"
    and "\<And>a. a \<in> sch_of m x \<Longrightarrow> a \<noteq> x \<Longrightarrow> rank a < rank x"
    and "\<And>a. a \<in> sch_of m x \<Longrightarrow> m a \<noteq> None"
    and "nam_of m x = sch_of m x"
    and "ext_of m x \<subseteq> set (uext_of m x)"
    and "sch_of m x = insert x (\<Union>e \<in> ext_of m x. sch_of m e)"
    and "\<And>e. e \<in> ext_of m x \<Longrightarrow> complete m e"
    and "\<And>a. a \<in> sch_of m x \<Longrightarrow> a \<noteq> x \<Longrightarrow> x \<in> dsc_of m a"
    and "\<And>e. full \<Longrightarrow> e \<in> ext_of m x \<Longrightarrow> keys_of m e \<subseteq> keys_of m x"
  shows "schema_ok full rank m x"
  unfolding schema_ok_def
proof (intro conjI ballI impI)
  fix e assume "e \<in> set (uext_of m x)"
  then show "rank e < rank x" by (rule assms(1))
next
  show "x \<in> sch_of m x" by (rule assms(2))
next
  fix a assume "a \<in> sch_of m x" "a \<noteq> x"
  then show "rank a < rank x" by (rule assms(3))
next
  fix a assume "a \<in> sch_of m x"
  then show "m a \<noteq> None" by (rule assms(4))
next
  show "nam_of m x = sch_of m x" by (rule assms(5))
next
  show "ext_of m x \<subseteq> set (uext_of m x)" by (rule assms(6))
next
  show "sch_of m x = insert x (\<Union>e \<in> ext_of m x. sch_of m e)" by (rule assms(7))
next
  fix e assume "e \<in> ext_of m x"
  then show "complete m e" by (rule assms(8))
next
  fix a assume "a \<in> sch_of m x" "a \<noteq> x"
  then show "x \<in> dsc_of m a" by (rule assms(9))
next
  fix e assume "full" "e \<in> ext_of m x"
  then show "keys_of m e \<subseteq> keys_of m x" by (rule assms(10))
qed

lemma complete_reg: "complete m x \<Longrightarrow> m x \<noteq> None"
  by (simp add: complete_def)

lemma link_parent_inv:
  assumes inv: "hierarchy_inv full rank m" and x: "m x \<noteq> None"
    and e: "e \<in> set (uext_of m x)" and ce: "complete m e"
  shows "hierarchy_inv full rank (link_parent x e m)"
proof -
  let ?m = "link_parent x e m"
  have me: "m e \<noteq> None" using ce by (rule complete_reg)
  note okx = schema_okD [OF hierarchy_inv_ok [OF inv x]]
  note oke = schema_okD [OF hierarchy_inv_ok [OF inv me]]
  note ext = link_parent_ext [OF me x] and sch = link_parent_sch [OF me x]
    and nam = link_parent_nam [OF me x] and dsc = link_parent_dsc [OF me x]
    and keys = link_parent_keys [OF me x] and cmp = link_parent_complete [OF me x]
  have re: "rank e < rank x" using e by (rule okx(1))
  then have ex: "e \<noteq> x" by auto
  have lowA: "rank a < rank x" if "a \<in> sch_of m e" for a
  proof (cases "a = e")
    case True
    then show ?thesis using re by simp
  next
    case False
    then have "rank a < rank e" using that by (intro oke(3))
    then show ?thesis using re by simp
  qed
  have lowE: "rank e' < rank x" if "e' \<in> insert e (ext_of m x)" for e'
    using that re okx(6) okx(1) by auto
  have "schema_ok full rank ?m y" if y: "m y \<noteq> None" for y
  proof (cases "y = x")
    case True
    have k7: "sch_of ?m x = insert x (\<Union>e' \<in> ext_of ?m x. sch_of ?m e')"
    proof -
      have other: "sch_of ?m e' = sch_of m e'" if "e' \<in> insert e (ext_of m x)" for e'
        using lowE [OF that] by (auto simp: sch)
      have "sch_of m x \<union> sch_of m e = insert x (\<Union>e' \<in> insert e (ext_of m x). sch_of m e')"
        using okx(7) by auto
      then show ?thesis using other by (simp add: sch ext)
    qed
    show ?thesis
      unfolding True
    proof (rule schema_okI)
      fix e' assume "e' \<in> set (uext_of ?m x)"
      then show "rank e' < rank x" using okx(1) by (simp add: link_parent_uext)
    next
      show "x \<in> sch_of ?m x" using okx(2) by (simp add: sch)
    next
      fix a assume "a \<in> sch_of ?m x" "a \<noteq> x"
      then show "rank a < rank x" using okx(3) lowA by (auto simp: sch)
    next
      fix a assume "a \<in> sch_of ?m x"
      then show "?m a \<noteq> None" using okx(4) oke(4) by (auto simp: sch link_parent_dom)
    next
      show "nam_of ?m x = sch_of ?m x" using okx(5) by (simp add: sch nam)
    next
      show "ext_of ?m x \<subseteq> set (uext_of ?m x)" using okx(6) e by (simp add: ext link_parent_uext)
    next
      show "sch_of ?m x = insert x (\<Union>e' \<in> ext_of ?m x. sch_of ?m e')" by (rule k7)
    next
      fix e' assume "e' \<in> ext_of ?m x"
      then have m: "e' \<in> insert e (ext_of m x)" by (simp add: ext)
      then have "e' \<noteq> x" using lowE by auto
      moreover have "complete m e'" using m ce okx(8) by auto
      ultimately show "complete ?m e'" by (simp add: cmp)
    next
      fix a assume a: "a \<in> sch_of ?m x" "a \<noteq> x"
      show "x \<in> dsc_of ?m a"
      proof (cases "a \<in> sch_of m e")
        case True
        then have "m a \<noteq> None" by (rule oke(4))
        with True show ?thesis by (simp add: dsc)
      next
        case False
        then have "a \<in> sch_of m x" using a by (simp add: sch)
        then have "x \<in> dsc_of m a" using a(2) by (rule okx(9))
        then show ?thesis by (simp add: dsc)
      qed
    next
      fix e' assume f: full and "e' \<in> ext_of ?m x"
      then have m: "e' \<in> insert e (ext_of m x)" by (simp add: ext)
      then have ne: "e' \<noteq> x" using lowE by auto
      have "keys_of m e' \<subseteq> keys_of m x \<union> keys_of m e" using m okx(10) [OF f] by auto
      then show "keys_of ?m e' \<subseteq> keys_of ?m x" using ne by (simp add: keys)
    qed
  next
    case False
    note oky = schema_okD [OF hierarchy_inv_ok [OF inv y]]
    have absorbed: "e \<in> ext_of m x \<and> sch_of m e \<subseteq> sch_of m x \<and> (full \<longrightarrow> keys_of m e \<subseteq> keys_of m x)"
      if "x \<in> ext_of m y"
    proof -
      have "complete m x" using that by (rule oky(8))
      then have 1: "e \<in> ext_of m x" using e by (simp add: complete_def)
      have 2: "sch_of m e \<subseteq> sch_of m x" using 1 okx(7) by blast
      have 3: "full \<longrightarrow> keys_of m e \<subseteq> keys_of m x" using 1 okx(10) by blast
      show ?thesis using 1 2 3 by blast
    qed
    have same_sch: "sch_of ?m e' = sch_of m e'" if "e' \<in> ext_of m y" for e'
      using that absorbed by (auto simp: sch)
    show ?thesis
    proof (rule schema_okI)
      fix e' assume "e' \<in> set (uext_of ?m y)"
      then show "rank e' < rank y" using oky(1) by (simp add: link_parent_uext)
    next
      show "y \<in> sch_of ?m y" using oky(2) False by (simp add: sch)
    next
      fix a assume "a \<in> sch_of ?m y" "a \<noteq> y"
      then show "rank a < rank y" using oky(3) False by (simp add: sch)
    next
      fix a assume "a \<in> sch_of ?m y"
      then show "?m a \<noteq> None" using oky(4) False by (simp add: sch link_parent_dom)
    next
      show "nam_of ?m y = sch_of ?m y" using oky(5) False by (simp add: sch nam)
    next
      show "ext_of ?m y \<subseteq> set (uext_of ?m y)" using oky(6) False by (simp add: ext link_parent_uext)
    next
      have "sch_of m y = insert y (\<Union>e' \<in> ext_of m y. sch_of m e')" by (rule oky(7))
      also have "(\<Union>e' \<in> ext_of m y. sch_of m e') = (\<Union>e' \<in> ext_of m y. sch_of ?m e')"
        using same_sch by simp
      finally show "sch_of ?m y = insert y (\<Union>e' \<in> ext_of ?m y. sch_of ?m e')"
        using False by (simp add: sch ext)
    next
      fix e' assume "e' \<in> ext_of ?m y"
      then have m: "e' \<in> ext_of m y" using False by (simp add: ext)
      then have c: "complete m e'" by (rule oky(8))
      show "complete ?m e'"
      proof (cases "e' = x")
        case True
        then have "insert e (ext_of m x) = ext_of m x" using absorbed m by auto
        then show ?thesis
          using c True by (simp add: complete_def link_parent_dom link_parent_uext ext)
      next
        case False
        then show ?thesis using c by (simp add: cmp)
      qed
    next
      fix a assume a: "a \<in> sch_of ?m y" "a \<noteq> y"
      then have "a \<in> sch_of m y" using False by (simp add: sch)
      then have "y \<in> dsc_of m a" using a(2) by (rule oky(9))
      then show "y \<in> dsc_of ?m a" by (simp add: dsc)
    next
      fix e' assume f: full and "e' \<in> ext_of ?m y"
      then have m: "e' \<in> ext_of m y" using False by (simp add: ext)
      then have sub: "keys_of m e' \<subseteq> keys_of m y" using oky(10) [OF f] by blast
      show "keys_of ?m e' \<subseteq> keys_of ?m y"
      proof (cases "e' = x")
        case True
        then have "keys_of m e \<subseteq> keys_of m x" using absorbed m f by auto
        then have "keys_of ?m x = keys_of m x" by (auto simp: keys)
        then show ?thesis using sub True False by (simp add: keys)
      next
        case ne: False
        then show ?thesis using sub False by (simp add: keys)
      qed
    qed
  qed
  then have all: "\<forall>y. ?m y \<noteq> None \<longrightarrow> schema_ok full rank ?m y"
    by (simp add: link_parent_dom)
  have nr: "full \<longrightarrow> no_reverse ?m"
  proof
    assume full
    then have n: "no_reverse m" using inv by (simp add: hierarchy_inv_def)
    have "set (props_of ?m y) \<subseteq> set (props_of m y) \<union> set (props_of m e)" for y
      using set_merge_properties [of "props_of m x" "props_of m e"]
      by (auto simp: link_parent_props [OF me x])
    then show "no_reverse ?m"
      using n unfolding no_reverse_def by blast
  qed
  show ?thesis unfolding hierarchy_inv_def using all nr by blast
qed

lemma complete_cong:
  assumes "uext_of m' = uext_of m" and "ext_of m' y = ext_of m y" and "(m' y = None) = (m y = None)"
  shows "complete m' y = complete m y"
  using assms by (simp add: complete_def)

lemma hierarchy_inv_only_properties:
  assumes inv: "hierarchy_inv full rank m" and op: "only_properties m m'" and f: "full \<longrightarrow> m' = m"
  shows "hierarchy_inv full rank m'"
proof (cases full)
  case True
  then show ?thesis using inv f by simp
next
  case False
  note v = only_properties_views [OF op]
  have c: "complete m' y = complete m y" for y
    by (rule complete_cong) (simp_all add: v)
  have "schema_ok False rank m' y" if "m' y \<noteq> None" for y
  proof -
    have "m y \<noteq> None" using that by (simp add: v(6))
    then have "schema_ok False rank m y" using inv False by (simp add: hierarchy_inv_def)
    then show ?thesis unfolding schema_ok_def by (simp add: v(1-5) v(6) c)
  qed
  then show ?thesis using False by (simp add: hierarchy_inv_def)
qed

text \<open>Linking a parent that is already linked changes nothing in the hierarchy.\<close>

lemma link_parent_again:
  assumes inv: "hierarchy_inv full rank m" and cx: "complete m x" and e: "e \<in> set (uext_of m x)"
  shows "ext_of (link_parent x e m) = ext_of m" and "sch_of (link_parent x e m) = sch_of m"
    and "nam_of (link_parent x e m) = nam_of m" and "dsc_of (link_parent x e m) = dsc_of m"
    and "full \<Longrightarrow> link_parent x e m = m"
proof -
  have x: "m x \<noteq> None" using cx by (rule complete_reg)
  note okx = schema_okD [OF hierarchy_inv_ok [OF inv x]]
  have ee: "e \<in> ext_of m x" using cx e by (simp add: complete_def)
  then have ce: "complete m e" by (rule okx(8))
  then have me: "m e \<noteq> None" by (rule complete_reg)
  note oke = schema_okD [OF hierarchy_inv_ok [OF inv me]]
  have sub: "sch_of m e \<subseteq> sch_of m x" using ee okx(7) by blast
  have re: "rank e < rank x" using e by (rule okx(1))
  have low: "rank a < rank x" if "a \<in> sch_of m e" for a
  proof (cases "a = e")
    case True
    then show ?thesis using re by simp
  next
    case False
    then have "rank a < rank e" using that by (intro oke(3))
    then show ?thesis using re by simp
  qed
  have desc: "x \<in> dsc_of m a" if "a \<in> sch_of m e" for a
  proof -
    have "a \<noteq> x" using low [OF that] by auto
    moreover have "a \<in> sch_of m x" using that sub by blast
    ultimately show ?thesis using okx(9) by blast
  qed
  show "ext_of (link_parent x e m) = ext_of m"
    using ee by (auto simp: fun_eq_iff link_parent_ext [OF me x])
  show "sch_of (link_parent x e m) = sch_of m"
    using sub by (auto simp: fun_eq_iff link_parent_sch [OF me x])
  show "nam_of (link_parent x e m) = nam_of m"
    using sub okx(5) by (auto simp: fun_eq_iff link_parent_nam [OF me x])
  show "dsc_of (link_parent x e m) = dsc_of m"
    using desc by (auto simp: fun_eq_iff link_parent_dsc [OF me x])
  show "link_parent x e m = m" if full
  proof
    fix y
    obtain se where se: "m e = Some se" using me by auto
    obtain sx where sx: "m x = Some sx" using x by auto
    have xA: "x \<notin> schemata se" using low [of x] se by (auto simp: sch_of_def)
    have "keys_of m e \<subseteq> keys_of m x" using that ee by (rule okx(10))
    then have p: "merge_properties (properties sx) (properties se) = properties sx"
      using se sx by (intro merge_properties_absorb) (simp add: keys_of_def props_of_def)
    have i: "insert e (extends sx) = extends sx" using ee sx by (auto simp: ext_of_def)
    have s: "schemata sx \<union> schemata se = schemata sx" using sub se sx by (auto simp: sch_of_def)
    have n: "names sx \<union> schemata se = names sx" using sub okx(5) se sx by (auto simp: sch_of_def nam_of_def)
    show "link_parent x e m y = m y"
    proof (cases "y = x")
      case True
      then show ?thesis using xA sx by (simp add: link_parent_apply [of m e se, OF se] p i s n)
    next
      case False
      show ?thesis
      proof (cases "y \<in> schemata se")
        case True
        then have "y \<in> sch_of m e" using se by (simp add: sch_of_def)
        then have d: "x \<in> dsc_of m y" and r: "m y \<noteq> None" using desc oke(4) by blast+
        then obtain sy where sy: "m y = Some sy" by auto
        then have "insert x (descendants sy) = descendants sy" using d by (auto simp: dsc_of_def)
        then show ?thesis using True False sy by (simp add: link_parent_apply [of m e se, OF se])
      next
        case no: False
        then show ?thesis using False by (simp add: link_parent_apply [of m e se, OF se])
      qed
    qed
  qed
qed

lemma step_postD:
  assumes "step_post full rank x m m'"
  shows "hierarchy_inv full rank m'" and "uext_of m' = uext_of m"
    and "\<And>y. (m' y = None) = (m y = None)"
    and "\<And>y. dsc_of m y \<subseteq> dsc_of m' y"
    and "ext_of m x \<subseteq> ext_of m' x"
    and "\<And>y. complete m y \<or> rank x < rank y \<Longrightarrow> core_same full m m' y"
    and "complete m x \<Longrightarrow> dsc_of m' = dsc_of m"
    and "full \<Longrightarrow> complete m x \<Longrightarrow> m' = m"
proof -
  note c = assms [unfolded step_post_def]
  note c1 = c [THEN conjunct1]
  note r1 = c [THEN conjunct2]
  note c2 = r1 [THEN conjunct1]
  note r2 = r1 [THEN conjunct2]
  note c3 = r2 [THEN conjunct1]
  note r3 = r2 [THEN conjunct2]
  note c4 = r3 [THEN conjunct1]
  note r4 = r3 [THEN conjunct2]
  note c5 = r4 [THEN conjunct1]
  note r5 = r4 [THEN conjunct2]
  note c6 = r5 [THEN conjunct1]
  note r6 = r5 [THEN conjunct2]
  note c7 = r6 [THEN conjunct1]
  note c8 = r6 [THEN conjunct2]
  show "hierarchy_inv full rank m'" by (rule c1)
  show "uext_of m' = uext_of m" by (rule c2)
  show "\<And>y. (m' y = None) = (m y = None)" using c3 by blast
  show "\<And>y. dsc_of m y \<subseteq> dsc_of m' y" using c4 by blast
  show "ext_of m x \<subseteq> ext_of m' x" by (rule c5)
  show "\<And>y. complete m y \<or> rank x < rank y \<Longrightarrow> core_same full m m' y" using c6 by blast
  show "complete m x \<Longrightarrow> dsc_of m' = dsc_of m" using c7 by blast
  show "full \<Longrightarrow> complete m x \<Longrightarrow> m' = m" using c8 by blast
qed

lemma step_postI:
  assumes "hierarchy_inv full rank m'" and "uext_of m' = uext_of m"
    and "\<And>y. (m' y = None) = (m y = None)"
    and "\<And>y. dsc_of m y \<subseteq> dsc_of m' y"
    and "ext_of m x \<subseteq> ext_of m' x"
    and "\<And>y. complete m y \<or> rank x < rank y \<Longrightarrow> core_same full m m' y"
    and "complete m x \<Longrightarrow> dsc_of m' = dsc_of m"
    and "full \<Longrightarrow> complete m x \<Longrightarrow> m' = m"
  shows "step_post full rank x m m'"
  unfolding step_post_def
proof (intro conjI allI impI)
  show "hierarchy_inv full rank m'" by (rule assms(1))
  show "uext_of m' = uext_of m" by (rule assms(2))
  show "(m' y = None) = (m y = None)" for y by (rule assms(3))
  show "dsc_of m y \<subseteq> dsc_of m' y" for y by (rule assms(4))
  show "ext_of m x \<subseteq> ext_of m' x" by (rule assms(5))
  show "core_same full m m' y" if "complete m y \<or> rank x < rank y" for y using that by (rule assms(6))
  show "dsc_of m' = dsc_of m" if "complete m x" using that by (rule assms(7))
  show "m' = m" if "full \<and> complete m x" using that assms(8) by blast
qed

lemma core_same_refl: "core_same full m m y"
  by (simp add: core_same_def)

lemma core_same_trans: "core_same full m m1 y \<Longrightarrow> core_same full m1 m2 y \<Longrightarrow> core_same full m m2 y"
  by (simp add: core_same_def)

lemma core_same_complete:
  assumes "core_same full m m' y" and "uext_of m' = uext_of m" and "(m' y = None) = (m y = None)"
  shows "complete m' y = complete m y"
  using assms by (simp add: core_same_def complete_def)

lemma step_post_refl: "hierarchy_inv full rank m \<Longrightarrow> step_post full rank x m m"
  by (rule step_postI) (simp_all add: core_same_refl)

lemma step_post_trans:
  assumes a: "step_post full rank x m m1" and b: "step_post full rank x m1 m2"
  shows "step_post full rank x m m2"
proof (rule step_postI)
  note A = step_postD [OF a] and B = step_postD [OF b]
  have keep: "complete m1 y" if "complete m y" for y
  proof -
    have "core_same full m m1 y" using that by (intro A(6)) simp
    then show ?thesis using that core_same_complete [OF _ A(2) A(3)] by blast
  qed
  show "hierarchy_inv full rank m2" by (rule B(1))
  show "uext_of m2 = uext_of m" using A(2) B(2) by simp
  show "(m2 y = None) = (m y = None)" for y using A(3) B(3) by simp
  show "dsc_of m y \<subseteq> dsc_of m2 y" for y using A(4) [of y] B(4) [of y] by blast
  show "ext_of m x \<subseteq> ext_of m2 x" using A(5) B(5) by blast
  show "core_same full m m2 y" if "complete m y \<or> rank x < rank y" for y
  proof -
    have 1: "core_same full m m1 y" using that by (rule A(6))
    have "complete m1 y \<or> rank x < rank y" using that keep by blast
    then have "core_same full m1 m2 y" by (rule B(6))
    with 1 show ?thesis by (rule core_same_trans)
  qed
  show "dsc_of m2 = dsc_of m" if "complete m x"
    using A(7) [OF that] B(7) [OF keep [OF that]] by simp
  show "m2 = m" if full and "complete m x"
    using A(8) [OF that] B(8) [OF that(1) keep [OF that(2)]] by simp
qed

text \<open>The effect of a call for a parent, seen from the child.\<close>

lemma step_post_lift:
  assumes a: "step_post full rank e m m'" and r: "rank e < rank x"
    and c: "complete m x \<Longrightarrow> complete m e"
  shows "step_post full rank x m m'"
proof (rule step_postI)
  note A = step_postD [OF a]
  show "hierarchy_inv full rank m'" by (rule A(1))
  show "uext_of m' = uext_of m" by (rule A(2))
  show "(m' y = None) = (m y = None)" for y by (rule A(3))
  show "dsc_of m y \<subseteq> dsc_of m' y" for y by (rule A(4))
  have "core_same full m m' x" using r by (intro A(6)) simp
  then show "ext_of m x \<subseteq> ext_of m' x" by (simp add: core_same_def)
  show "core_same full m m' y" if "complete m y \<or> rank x < rank y" for y
    using that r by (intro A(6)) auto
  show "dsc_of m' = dsc_of m" if "complete m x" using A(7) [OF c [OF that]] .
  show "m' = m" if full and "complete m x" using A(8) [OF that(1) c [OF that(2)]] .
qed

lemma step_post_link:
  assumes inv: "hierarchy_inv full rank m" and x: "m x \<noteq> None"
    and e: "e \<in> set (uext_of m x)" and ce: "complete m e"
  shows "step_post full rank x m (link_parent x e m)"
proof (rule step_postI)
  have me: "m e \<noteq> None" using ce by (rule complete_reg)
  have re: "rank e < rank x" using e by (rule schema_okD(1) [OF hierarchy_inv_ok [OF inv x]])
  show "hierarchy_inv full rank (link_parent x e m)" using inv x e ce by (rule link_parent_inv)
  show "uext_of (link_parent x e m) = uext_of m" by (rule link_parent_uext)
  show "(link_parent x e m y = None) = (m y = None)" for y by (rule link_parent_dom)
  show "dsc_of m y \<subseteq> dsc_of (link_parent x e m) y" for y
    by (auto simp: link_parent_dsc [OF me x])
  show "ext_of m x \<subseteq> ext_of (link_parent x e m) x"
    by (auto simp: link_parent_ext [OF me x])
  show "core_same full m (link_parent x e m) y" if "complete m y \<or> rank x < rank y" for y
  proof (cases "y = x")
    case True
    then have cx: "complete m x" using that by auto
    show ?thesis
      using link_parent_again [OF inv cx e] True by (cases full) (simp_all add: core_same_def)
  next
    case False
    then show ?thesis
      by (simp add: core_same_def link_parent_ext [OF me x] link_parent_sch [OF me x]
            link_parent_nam [OF me x] link_parent_props [OF me x])
  qed
  show "dsc_of (link_parent x e m) = dsc_of m" if "complete m x"
    using link_parent_again(4) [OF inv that e] .
  show "link_parent x e m = m" if full and "complete m x"
    using link_parent_again(5) [OF inv that(2) e that(1)] .
qed

lemma step_post_only_properties:
  assumes inv: "hierarchy_inv full rank m" and op: "only_properties m m'" and f: "full \<longrightarrow> m' = m"
  shows "step_post full rank x m m'"
proof (cases full)
  case True
  then show ?thesis using inv f by (simp add: step_post_refl)
next
  case False
  note v = only_properties_views [OF op]
  show ?thesis
  proof (rule step_postI)
    show "hierarchy_inv full rank m'" using inv op f by (rule hierarchy_inv_only_properties)
    show "uext_of m' = uext_of m" by (rule v(1))
    show "(m' y = None) = (m y = None)" for y by (rule v(6))
    show "dsc_of m y \<subseteq> dsc_of m' y" for y by (simp add: v(5))
    show "ext_of m x \<subseteq> ext_of m' x" by (simp add: v(2))
    show "core_same full m m' y" for y using False by (simp add: core_same_def v)
    show "dsc_of m' = dsc_of m" by (rule v(5))
    show "m' = m" if full using that False by simp
  qed
qed

lemma extends_loop_post:
  assumes gen: "\<And>m e m'. hierarchy_inv full rank m \<Longrightarrow> gen m e = Some (Inr m') \<Longrightarrow>
                  step_post full rank e m m' \<and> complete m' e"
  shows "hierarchy_inv full rank m \<Longrightarrow> m x \<noteq> None \<Longrightarrow> set es \<subseteq> set (uext_of m x) \<Longrightarrow>
         extends_loop gen x m es = Some (Inr m') \<Longrightarrow>
         step_post full rank x m m' \<and> set es \<subseteq> ext_of m' x \<and>
         (full \<longrightarrow> props_of m' x =
            foldl merge_properties (props_of m x) (map (props_of m') es))"
proof (induction es arbitrary: m)
  case Nil
  then show ?case by (simp add: step_post_refl)
next
  case (Cons e rest)
  note inv = Cons.prems(1) and x = Cons.prems(2)
  have e: "e \<in> set (uext_of m x)" and rest: "set rest \<subseteq> set (uext_of m x)"
    using Cons.prems(3) by auto
  note okx = schema_okD [OF hierarchy_inv_ok [OF inv x]]
  have re: "rank e < rank x" using e by (rule okx(1))
  then have ne: "e \<noteq> x" by auto
  obtain m1 where g: "gen m e = Some (Inr m1)"
    and l: "extends_loop gen x (link_parent x e m1) rest = Some (Inr m')"
    using Cons.prems(4) by (auto simp: bind_r_Inr split: option.splits)
  let ?m2 = "link_parent x e m1"
  have G: "step_post full rank e m m1" and ce1: "complete m1 e"
    using gen [OF inv g] by blast+
  have cxe: "complete m e" if "complete m x"
  proof -
    have "e \<in> ext_of m x" using that e by (simp add: complete_def)
    then show ?thesis by (rule okx(8))
  qed
  have L1: "step_post full rank x m m1" using G re cxe by (rule step_post_lift)
  note D1 = step_postD [OF L1]
  have x1: "m1 x \<noteq> None" using x by (simp add: D1(3))
  have e1: "e \<in> set (uext_of m1 x)" using e by (simp add: D1(2))
  have me1: "m1 e \<noteq> None" using ce1 by (rule complete_reg)
  have L2: "step_post full rank x m1 ?m2" using D1(1) x1 e1 ce1 by (rule step_post_link)
  note D2 = step_postD [OF L2]
  have x2: "?m2 x \<noteq> None" using x1 by (simp add: D2(3))
  have rest2: "set rest \<subseteq> set (uext_of ?m2 x)" using rest by (simp add: D1(2) D2(2))
  from Cons.IH [OF D2(1) x2 rest2 l]
  have L3: "step_post full rank x ?m2 m'" and in3: "set rest \<subseteq> ext_of m' x"
    and p3: "full \<longrightarrow> props_of m' x =
               foldl merge_properties (props_of ?m2 x) (map (props_of m') rest)"
    by blast+
  note D3 = step_postD [OF L3]
  have S: "step_post full rank x m m'"
    using step_post_trans [OF step_post_trans [OF L1 L2] L3] .
  have "e \<in> ext_of ?m2 x" by (simp add: link_parent_ext [OF me1 x1])
  then have ine: "e \<in> ext_of m' x" using D3(5) by blast
  have P: "props_of m' x = foldl merge_properties (props_of m x) (map (props_of m') (e # rest))"
    if full
  proof -
    have "core_same full m m1 x" using re by (intro step_postD(6) [OF G]) simp
    then have a: "props_of m1 x = props_of m x" using that by (simp add: core_same_def)
    have c12: "core_same full m1 ?m2 e" using ce1 by (intro D2(6)) simp
    then have ce2: "complete ?m2 e"
      using ce1 core_same_complete [OF c12 D2(2) D2(3)] by blast
    have "core_same full ?m2 m' e" using ce2 by (intro D3(6)) simp
    with c12 have "core_same full m1 m' e" by (rule core_same_trans)
    then have b: "props_of m' e = props_of m1 e" using that by (simp add: core_same_def)
    have "props_of ?m2 x = merge_properties (props_of m x) (props_of m' e)"
      by (simp add: link_parent_props [OF me1 x1] a b)
    then show ?thesis using p3 that by simp
  qed
  show ?case using S ine in3 P by auto
qed

lemma generate_post:
  "hierarchy_inv full rank m \<Longrightarrow> generate f m x = Some (Inr m') \<Longrightarrow>
   step_post full rank x m m' \<and> complete m' x \<and>
   (full \<longrightarrow> props_of m' x =
      foldl merge_properties (props_of m x) (map (props_of m') (uext_of m x)))"
proof (induction f arbitrary: m x m')
  case 0
  then show ?case by simp
next
  case (Suc f)
  note inv = Suc.prems(1)
  obtain s where s: "m x = Some s" using Suc.prems(2) by (auto split: option.splits)
  then have x: "m x \<noteq> None" by simp
  have u: "uext_of m x = u_extends s" using s by (simp add: uext_of_def)
  obtain m1 where l: "extends_loop (generate f) x m (u_extends s) = Some (Inr m1)"
    and p: "generate_props (prop_generate f) x m1 = Some (Inr m')"
    using Suc.prems(2) s
    by (auto simp: bind_r_Inr generate_checks_def split: option.splits)
  have gen: "step_post full rank e m0 m0' \<and> complete m0' e"
    if "hierarchy_inv full rank m0" "generate f m0 e = Some (Inr m0')" for m0 e m0'
    using Suc.IH [OF that] by blast
  have "set (u_extends s) \<subseteq> set (uext_of m x)" by (simp add: u)
  from extends_loop_post [of full rank "generate f", OF gen inv x this l]
  have L: "step_post full rank x m m1" and all: "set (u_extends s) \<subseteq> ext_of m1 x"
    and P: "full \<longrightarrow> props_of m1 x =
              foldl merge_properties (props_of m x) (map (props_of m1) (u_extends s))"
    by blast+
  note D = step_postD [OF L]
  have op: "only_properties m1 m'" using p by (rule generate_props_only_properties)
  have same: "full \<longrightarrow> m' = m1"
  proof
    assume full
    then have "no_reverse m1" using D(1) by (simp add: hierarchy_inv_def)
    then show "m' = m1" using p by (rule generate_props_no_reverse_same)
  qed
  have L': "step_post full rank x m1 m'" using D(1) op same by (rule step_post_only_properties)
  have S: "step_post full rank x m m'" using L L' by (rule step_post_trans)
  note D' = step_postD [OF S]
  note v = only_properties_views [OF op]
  have x': "m' x \<noteq> None" using x by (simp add: D'(3))
  have "ext_of m' x \<subseteq> set (uext_of m' x)"
    by (rule schema_okD(6) [OF hierarchy_inv_ok [OF D'(1) x']])
  moreover have "set (uext_of m' x) \<subseteq> ext_of m' x"
    using all by (simp add: D'(2) u v(2))
  ultimately have c: "complete m' x" using x' by (simp add: complete_def)
  have "full \<longrightarrow> props_of m' x =
          foldl merge_properties (props_of m x) (map (props_of m') (uext_of m x))"
    using P same u by auto
  with S c show ?case by blast
qed

lemma fresh_views:
  assumes "fresh m" and "m x \<noteq> None"
  shows "ext_of m x = {}" and "sch_of m x = {x}" and "nam_of m x = {x}" and "dsc_of m x = {}"
  using assms by (auto simp: fresh_def ext_of_def sch_of_def nam_of_def dsc_of_def)

lemma fresh_hierarchy_inv:
  assumes a: "acyclic_extends rank m" and f: "fresh m" and n: "full \<longrightarrow> no_reverse m"
  shows "hierarchy_inv full rank m"
proof -
  have "schema_ok full rank m x" if x: "m x \<noteq> None" for x
  proof (rule schema_okI)
    note v = fresh_views [OF f x]
    show "rank e < rank x" if "e \<in> set (uext_of m x)" for e
      using a that by (simp add: acyclic_extends_def)
    show "x \<in> sch_of m x" by (simp add: v)
    show "rank a < rank x" if "a \<in> sch_of m x" "a \<noteq> x" for a using that by (simp add: v)
    show "m a \<noteq> None" if "a \<in> sch_of m x" for a using that x by (simp add: v)
    show "nam_of m x = sch_of m x" by (simp add: v)
    show "ext_of m x \<subseteq> set (uext_of m x)" by (simp add: v)
    show "sch_of m x = insert x (\<Union>e \<in> ext_of m x. sch_of m e)" by (simp add: v)
    show "complete m e" if "e \<in> ext_of m x" for e using that by (simp add: v)
    show "x \<in> dsc_of m a" if "a \<in> sch_of m x" "a \<noteq> x" for a using that by (simp add: v)
    show "keys_of m e \<subseteq> keys_of m x" if full "e \<in> ext_of m x" for e using that by (simp add: v)
  qed
  then show ?thesis using n by (simp add: hierarchy_inv_def)
qed

lemma generate_all_post:
  "hierarchy_inv full rank m \<Longrightarrow> generate_all f m xs = Some (Inr m') \<Longrightarrow>
   hierarchy_inv full rank m' \<and> uext_of m' = uext_of m \<and> (\<forall>y. (m' y = None) = (m y = None)) \<and>
   (\<forall>y \<in> set xs. complete m' y) \<and> (\<forall>y. complete m y \<longrightarrow> complete m' y)"
proof (induction xs arbitrary: m)
  case Nil
  then show ?case by simp
next
  case (Cons x xs)
  obtain m1 where g: "generate f m x = Some (Inr m1)"
    and r: "generate_all f m1 xs = Some (Inr m')"
    using Cons.prems(2) by (auto simp: bind_r_Inr)
  have S: "step_post full rank x m m1" and cx: "complete m1 x"
    using generate_post [OF Cons.prems(1) g] by blast+
  note D = step_postD [OF S]
  have keep: "complete m1 y" if "complete m y" for y
  proof -
    have "core_same full m m1 y" using that by (intro D(6)) simp
    then show ?thesis using that core_same_complete [OF _ D(2) D(3)] by blast
  qed
  from Cons.IH [OF D(1) r]
  have i: "hierarchy_inv full rank m'" and u: "uext_of m' = uext_of m1"
    and d: "\<forall>y. (m' y = None) = (m1 y = None)"
    and c: "\<forall>y \<in> set xs. complete m' y" and k: "\<forall>y. complete m1 y \<longrightarrow> complete m' y"
    by blast+
  have "\<forall>y \<in> set (x # xs). complete m' y" using c k cx by simp
  moreover have "\<forall>y. complete m y \<longrightarrow> complete m' y" using keep k by blast
  moreover have "uext_of m' = uext_of m" using u D(2) by simp
  moreover have "\<forall>y. (m' y = None) = (m y = None)" using d D(3) by simp
  ultimately show ?case using i by blast
qed

lemma closure_reachable:
  assumes inv: "hierarchy_inv full rank m" and all: "\<And>y. m y \<noteq> None \<Longrightarrow> complete m y"
  shows "m x \<noteq> None \<Longrightarrow> sch_of m x = {a. (x, a) \<in> (parents m)\<^sup>*}"
proof (induction "rank x" arbitrary: x rule: less_induct)
  case less
  note ok = schema_okD [OF hierarchy_inv_ok [OF inv less.prems]]
  have c: "ext_of m x = set (uext_of m x)" using all [OF less.prems] by (simp add: complete_def)
  have sub: "sch_of m e = {a. (e, a) \<in> (parents m)\<^sup>*}" if "e \<in> set (uext_of m x)" for e
  proof -
    have "rank e < rank x" using that by (rule ok(1))
    moreover have "m e \<noteq> None" using that c ok(8) complete_reg by blast
    ultimately show ?thesis by (rule less.hyps)
  qed
  have "{a. (x, a) \<in> (parents m)\<^sup>*} =
          insert x (\<Union>e \<in> set (uext_of m x). {a. (e, a) \<in> (parents m)\<^sup>*})"
  proof (intro set_eqI iffI)
    fix a assume "a \<in> {a. (x, a) \<in> (parents m)\<^sup>*}"
    then have "(x, a) \<in> (parents m)\<^sup>*" by simp
    then show "a \<in> insert x (\<Union>e \<in> set (uext_of m x). {a. (e, a) \<in> (parents m)\<^sup>*})"
      by (cases rule: converse_rtranclE) (auto simp: parents_def)
  next
    fix a assume "a \<in> insert x (\<Union>e \<in> set (uext_of m x). {a. (e, a) \<in> (parents m)\<^sup>*})"
    then show "a \<in> {a. (x, a) \<in> (parents m)\<^sup>*}"
      by (auto simp: parents_def intro: converse_rtrancl_into_rtrancl)
  qed
  also have "\<dots> = insert x (\<Union>e \<in> ext_of m x. sch_of m e)" using sub c by simp
  also have "\<dots> = sch_of m x" using ok(7) by simp
  finally show ?case by simp
qed




subsection \<open>Closure of the hierarchy\<close>

text \<open>
  C1. In an acyclic \<open>extends\<close> graph, once \<open>generate()\<close> has completed for all schemata
  of a freshly constructed registry, every schema \<open>S\<close> has: \<open>schemata\<close> equal to \<open>S\<close>
  together with the \<open>schemata\<close> of its direct parents, which is the set of all schemata
  reachable from \<open>S\<close> along \<open>extends\<close>; every declared parent linked in \<open>extends\<close>;
  \<open>names\<close> equal to the names of \<open>schemata\<close>; and \<open>S\<close> among the \<open>descendants\<close> of every
  other member of its \<open>schemata\<close>.
\<close>

theorem generate_closure:
  assumes "acyclic_extends rank m" and "fresh m"
    and "generate_all f m xs = Some (Inr m')"
    and "\<forall>x. m x \<noteq> None \<longrightarrow> x \<in> set xs"
  shows "\<forall>x s. m' x = Some s \<longrightarrow>
           schemata s = insert x (\<Union>e \<in> extends s. sch_of m' e) \<and>
           schemata s = {a. (x, a) \<in> (parents m')\<^sup>*} \<and>
           extends s = set (u_extends s) \<and>
           names s = schemata s \<and>
           (\<forall>p \<in> schemata s. p \<noteq> x \<longrightarrow> x \<in> dsc_of m' p)"
proof (intro allI impI)
  fix x s assume s: "m' x = Some s"
  have inv0: "hierarchy_inv False rank m" using assms(1,2) by (intro fresh_hierarchy_inv) simp_all
  from generate_all_post [OF inv0 assms(3)]
  have inv: "hierarchy_inv False rank m'" and d: "\<forall>y. (m' y = None) = (m y = None)"
    and c: "\<forall>y \<in> set xs. complete m' y"
    by blast+
  have all: "complete m' y" if "m' y \<noteq> None" for y
  proof -
    have "m y \<noteq> None" using that d by simp
    then have "y \<in> set xs" using assms(4) by simp
    then show ?thesis using c by simp
  qed
  have x: "m' x \<noteq> None" using s by simp
  note ok = schema_okD [OF hierarchy_inv_ok [OF inv x]]
  have v: "sch_of m' x = schemata s" "ext_of m' x = extends s" "nam_of m' x = names s"
    "uext_of m' x = u_extends s"
    using s by (simp_all add: sch_of_def ext_of_def nam_of_def uext_of_def)
  have 1: "schemata s = insert x (\<Union>e \<in> extends s. sch_of m' e)" using ok(7) by (simp add: v)
  have 2: "schemata s = {a. (x, a) \<in> (parents m')\<^sup>*}"
    using closure_reachable [OF inv all x] by (simp add: v)
  have 3: "extends s = set (u_extends s)" using all [OF x] by (simp add: complete_def v)
  have 4: "names s = schemata s" using ok(5) by (simp add: v)
  have 5: "\<forall>p \<in> schemata s. p \<noteq> x \<longrightarrow> x \<in> dsc_of m' p" using ok(9) by (simp add: v)
  show "schemata s = insert x (\<Union>e \<in> extends s. sch_of m' e) \<and>
           schemata s = {a. (x, a) \<in> (parents m')\<^sup>*} \<and>
           extends s = set (u_extends s) \<and>
           names s = schemata s \<and>
           (\<forall>p \<in> schemata s. p \<noteq> x \<longrightarrow> x \<in> dsc_of m' p)"
    using 1 2 3 4 5 by blast
qed

lemma ex_model_acyclic: "acyclic_extends ex_rank ex_model"
  by (auto simp: acyclic_extends_def uext_of_def ex_model_def ex_rank_def ex_thing_def
        ex_legal_entity_def ex_company_def ex_plot_def schema_init_def no_spec_def Let_def
      split: if_splits)

lemma ex_model_fresh: "fresh ex_model"
  by (auto simp: fresh_def ex_model_def ex_thing_def ex_legal_entity_def ex_company_def
        ex_plot_def schema_init_def no_spec_def Let_def
      split: if_splits)

lemma ex_model_generated:
  "generate_all 5 ex_model [''Thing'', ''LegalEntity'', ''Company'', ''Plot''] = Some (Inr ex_generated)"
proof -
  have "case generate_all 5 ex_model [''Thing'', ''LegalEntity'', ''Company'', ''Plot''] of
          Some (Inr m) \<Rightarrow> True | _ \<Rightarrow> False"
    by code_simp
  then show ?thesis by (auto simp: ex_generated_def split: option.splits sum.splits)
qed

theorem generate_closure_witness:
  "acyclic_extends ex_rank ex_model \<and> fresh ex_model \<and>
   generate_all 5 ex_model [''Thing'', ''LegalEntity'', ''Company'', ''Plot''] = Some (Inr ex_generated) \<and>
   sch_of ex_generated ''Company'' = {''Company'', ''LegalEntity'', ''Thing''} \<and>
   sch_of ex_generated ''Company'' = insert ''Company'' (sch_of ex_generated ''LegalEntity'') \<and>
   ext_of ex_generated ''Company'' = {''LegalEntity''} \<and>
   nam_of ex_generated ''Company'' = sch_of ex_generated ''Company'' \<and>
   dsc_of ex_generated ''Thing'' = {''LegalEntity'', ''Company'', ''Plot''}"
proof -
  have d: "\<forall>x. ex_model x \<noteq> None \<longrightarrow> x \<in> set [''Thing'', ''LegalEntity'', ''Company'', ''Plot'']"
    by (simp add: ex_model_def)
  note t = generate_closure [OF ex_model_acyclic ex_model_fresh ex_model_generated d]
  have v: "case ex_generated ''Company'' of None \<Rightarrow> False
           | Some s \<Rightarrow> schemata s = {''Company'', ''LegalEntity'', ''Thing''} \<and>
                       extends s = {''LegalEntity''}"
    by code_simp
  then obtain s where s: "ex_generated ''Company'' = Some s"
    and s1: "schemata s = {''Company'', ''LegalEntity'', ''Thing''}"
    and s2: "extends s = {''LegalEntity''}"
    by (auto split: option.splits)
  note ts = t [rule_format, OF s]
  have c: "schemata s = insert ''Company'' (\<Union>e \<in> extends s. sch_of ex_generated e)"
    using ts by (rule conjunct1)
  have n: "names s = schemata s"
    using ts by (rule conjunct1 [OF conjunct2 [OF conjunct2 [OF conjunct2]]])
  have w: "dsc_of ex_generated ''Thing'' = {''LegalEntity'', ''Company'', ''Plot''}"
    by code_simp
  have c': "sch_of ex_generated ''Company'' = insert ''Company'' (sch_of ex_generated ''LegalEntity'')"
    using c s s2 by (simp add: sch_of_def)
  have n': "nam_of ex_generated ''Company'' = sch_of ex_generated ''Company''"
    using n s by (simp add: sch_of_def nam_of_def)
  have s1': "sch_of ex_generated ''Company'' = {''Company'', ''LegalEntity'', ''Thing''}"
    using s s1 by (simp add: sch_of_def)
  have s2': "ext_of ex_generated ''Company'' = {''LegalEntity''}"
    using s s2 by (simp add: ext_of_def)
  show ?thesis
    using ex_model_acyclic ex_model_fresh ex_model_generated s1' c' s2' n' w
    by (intro conjI)
qed

subsection \<open>Generating again\<close>





subsection \<open>Inherited properties\<close>





end
